theory Spec2Isabelle
  imports Complex_Main "HOL-Library.Multiset"
begin

section \<open>Time values\<close>

text \<open>
  A JavaScript \<^verbatim>\<open>Date\<close> is modelled by its time value: an integer number of
  milliseconds, read in the one local frame the specification assumes (no time-zone
  conversion, no daylight-saving shift), so that a calendar day is a block of
  86400000 ms and day 0 is Thursday 1970-01-01. Invalid dates (NaN) are outside the
  model. The functions of this section are the date-fns and \<^verbatim>\<open>Date\<close> primitives the
  utilities call; date-fns is an external library, and each one is written from its
  documented behaviour on such time values.
\<close>

type_synonym Date = int

abbreviation msPerMinute :: int where "msPerMinute \<equiv> 60000"
abbreviation msPerHour :: int where "msPerHour \<equiv> 3600000"
abbreviation msPerDay :: int where "msPerDay \<equiv> 86400000"

definition addMinutes :: "Date \<Rightarrow> int \<Rightarrow> Date" where
  "addMinutes d n = d + n * msPerMinute"

definition startOfDay :: "Date \<Rightarrow> Date" where
  "startOfDay d = d - d mod msPerDay"

text \<open>\<^verbatim>\<open>d.setHours(h, 0, 0, 0)\<close>: the same calendar day at h o'clock sharp.\<close>

definition setHours :: "Date \<Rightarrow> int \<Rightarrow> Date" where
  "setHours d h = startOfDay d + h * msPerHour"

definition getHours :: "Date \<Rightarrow> int" where
  "getHours d = (d mod msPerDay) div msPerHour"

definition getMinutes :: "Date \<Rightarrow> int" where
  "getMinutes d = (d mod msPerHour) div msPerMinute"

text \<open>\<^verbatim>\<open>getDay\<close>: 0 is Sunday; day 0 of the time line is a Thursday.\<close>

definition getDay :: "Date \<Rightarrow> int" where
  "getDay d = (d div msPerDay + 4) mod 7"

definition isSameDay :: "Date \<Rightarrow> Date \<Rightarrow> bool" where
  "isSameDay a b = (startOfDay a = startOfDay b)"

text \<open>\<^verbatim>\<open>differenceInMinutes(later, earlier)\<close>: whole minutes, truncated towards zero.\<close>

definition differenceInMinutes :: "Date \<Rightarrow> Date \<Rightarrow> int" where
  "differenceInMinutes later earlier =
     (let diff = later - earlier in sgn diff * (\<bar>diff\<bar> div msPerMinute))"

text \<open>\<^verbatim>\<open>startOfWeek(d, { weekStartsOn: 1 })\<close> and \<^verbatim>\<open>endOfWeek(d, { weekStartsOn: 1 })\<close>:
  Monday 00:00:00.000 and Sunday 23:59:59.999 of the week of d.\<close>

definition startOfWeek :: "Date \<Rightarrow> Date" where
  "startOfWeek d =
     (let day = getDay d; diff = (if day < 1 then 7 else 0) + day - 1
      in startOfDay d - diff * msPerDay)"

definition endOfWeek :: "Date \<Rightarrow> Date" where
  "endOfWeek d =
     (let day = getDay d; diff = (if day < 1 then - 7 else 0) + 6 - (day - 1)
      in startOfDay d + diff * msPerDay + (msPerDay - 1))"

text \<open>\<^verbatim>\<open>eachDayOfInterval({ start, end })\<close>: the start of every calendar day from the
  day of start up to the last one that is not after end.\<close>

definition eachDayOfInterval :: "Date \<Rightarrow> Date \<Rightarrow> Date list" where
  "eachDayOfInterval s e =
     map (\<lambda>i. startOfDay s + i * msPerDay) [0 .. (e - startOfDay s) div msPerDay]"

text \<open>
  Modelled from the spec: \<^verbatim>\<open>areIntervalsOverlapping(left, right, { inclusive: false })\<close> of
  date-fns is not part of the repository. Section 4.1 of the specification gives the rule
  the code relies on: two intervals overlap iff each starts strictly before the other
  ends. Every release of date-fns computes this on intervals whose start is not after
  their end; what a release does with a reversed interval is not modelled.
\<close>

definition areIntervalsOverlapping :: "Date \<Rightarrow> Date \<Rightarrow> Date \<Rightarrow> Date \<Rightarrow> bool" where
  "areIntervalsOverlapping leftStart leftEnd rightStart rightEnd =
     (leftStart < rightEnd \<and> rightStart < leftEnd)"

subsection \<open>Printing\<close>

definition digit :: "nat \<Rightarrow> char" where
  "digit n = ''0123456789'' ! n"

text \<open>The decimal numeral a template literal prints for a non-negative integer.\<close>

fun showNat :: "nat \<Rightarrow> string" where
  "showNat n = (if n < 10 then [digit n] else showNat (n div 10) @ [digit (n mod 10)])"

text \<open>\<^verbatim>\<open>format(d, 'h:mm a')\<close>: the hour on the 12-hour clock without padding, the minutes
  on two digits, then AM or PM.\<close>

definition format_h_mm_a :: "Date \<Rightarrow> string" where
  "format_h_mm_a d =
     (let h = getHours d; m = getMinutes d;
          h12 = (if h mod 12 = 0 then 12 else h mod 12)
      in showNat (nat h12) @ '':'' @ [digit (nat (m div 10)), digit (nat (m mod 10))] @ '' ''
         @ (if h < 12 then ''AM'' else ''PM''))"

section \<open>The data model\<close>

text \<open>\<^verbatim>\<open>Omit<CalendarEvent, 'id'>\<close>, and \<^verbatim>\<open>CalendarEvent\<close> which adds the id.\<close>

record EventData =
  title :: string
  description :: "string option"
  startDate :: Date
  endDate :: Date
  color :: string
  category :: string

record CalendarEvent = EventData +
  ident :: string

record ConflictInfo =
  hasConflict :: bool
  conflictingEvents :: "CalendarEvent list"
  conflictMessage :: string
  suggestedTimes :: "Date list"

datatype TimeOfDay = Morning | Afternoon | Evening

record FreeTimeSlot =
  slotStart :: Date
  slotEnd :: Date
  duration :: int
  slotType :: TimeOfDay

record FreeTimeFinderResult =
  longestFreeBlock :: "FreeTimeSlot option"
  nextAvailableHour :: "FreeTimeSlot option"
  recurringWeeklyPattern :: "FreeTimeSlot list"
  allFreeSlots :: "FreeTimeSlot list"

section \<open>Conflict detection (conflict.utils.ts)\<close>

text \<open>
  The callback of \<^verbatim>\<open>existingEvents.filter\<close> in \<^verbatim>\<open>detectEventConflicts\<close>. The guard
  \<^verbatim>\<open>excludeEventId && event.id === excludeEventId\<close> tests the truthiness of the optional
  string first: an absent id and the empty string exclude nothing.
\<close>

definition isConflicting :: "EventData \<Rightarrow> string option \<Rightarrow> CalendarEvent \<Rightarrow> bool" where
  "isConflicting newEvent excludeEventId event =
     (if (case excludeEventId of None \<Rightarrow> False | Some x \<Rightarrow> x \<noteq> [] \<and> ident event = x)
      then False
      else areIntervalsOverlapping (startDate newEvent) (endDate newEvent)
             (startDate event) (endDate event))"

text \<open>The en dash (U+2013) of the time range, as its three UTF-8 bytes.\<close>

definition enDash :: string where
  "enDash = [CHR 0xE2, CHR 0x80, CHR 0x93]"

text \<open>Lines 61 to 73 of \<^verbatim>\<open>detectEventConflicts\<close>: the message built from the list of
  conflicting events. \<^verbatim>\<open>CHR 0x22\<close> is the double quote around the title.\<close>

definition buildConflictMessage :: "CalendarEvent list \<Rightarrow> string" where
  "buildConflictMessage conflicting =
     (case conflicting of
        [] \<Rightarrow> []
      | firstConflict # _ \<Rightarrow>
          (let timeRange = format_h_mm_a (startDate firstConflict) @ enDash
                             @ format_h_mm_a (endDate firstConflict)
           in if length conflicting = 1
              then ''You already have '' @ [CHR 0x22] @ title firstConflict @ [CHR 0x22]
                     @ '' from '' @ timeRange
              else ''You have '' @ showNat (length conflicting)
                     @ '' conflicting events starting with '' @ [CHR 0x22]
                     @ title firstConflict @ [CHR 0x22] @ '' at '' @ timeRange))"

text \<open>
  \<^verbatim>\<open>detectEventConflicts\<close> calls \<^verbatim>\<open>generateAlternativeTimeSlots\<close> when it finds a conflict,
  and \<^verbatim>\<open>generateAlternativeTimeSlots\<close> calls \<^verbatim>\<open>detectEventConflicts\<close> on every probe of its
  \<^verbatim>\<open>while\<close> loop: the two are mutually recursive and nothing in the source bounds the
  depth. The first argument of the model is the call depth still available (the stack):
  \<^verbatim>\<open>None\<close> means the depth was exhausted, and a call that is \<^verbatim>\<open>None\<close> at every depth does
  not return (in JavaScript it ends in a stack overflow). \<^verbatim>\<open>slotScan\<close> is the
  \<^verbatim>\<open>while (currentSlot < businessEnd)\<close> loop, with its \<^verbatim>\<open>break\<close> after three suggestions.
\<close>

function detectEventConflicts ::
    "nat \<Rightarrow> EventData \<Rightarrow> CalendarEvent list \<Rightarrow> string option \<Rightarrow> ConflictInfo option"
  and generateAlternativeTimeSlots ::
    "nat \<Rightarrow> EventData \<Rightarrow> CalendarEvent list \<Rightarrow> string option \<Rightarrow> Date list option"
  and slotScan ::
    "nat \<Rightarrow> EventData \<Rightarrow> CalendarEvent list \<Rightarrow> string option \<Rightarrow> int \<Rightarrow> Date \<Rightarrow> Date
       \<Rightarrow> Date list \<Rightarrow> Date list option"
where
  "detectEventConflicts 0 newEvent existingEvents excludeEventId = None"
| "detectEventConflicts (Suc depth) newEvent existingEvents excludeEventId =
     (let conflicting = filter (isConflicting newEvent excludeEventId) existingEvents;
          conflict = (length conflicting > 0)
      in case (if conflict
               then generateAlternativeTimeSlots depth newEvent existingEvents excludeEventId
               else Some [])
         of None \<Rightarrow> None
          | Some suggested \<Rightarrow>
              Some \<lparr> hasConflict = conflict, conflictingEvents = conflicting,
                     conflictMessage = buildConflictMessage conflicting,
                     suggestedTimes = suggested \<rparr>)"
| "generateAlternativeTimeSlots depth newEvent existingEvents excludeEventId =
     (let eventDuration = differenceInMinutes (endDate newEvent) (startDate newEvent);
          eventDate = startOfDay (startDate newEvent);
          businessStart = setHours eventDate 8;
          businessEnd = setHours eventDate 18
      in slotScan depth newEvent existingEvents excludeEventId eventDuration businessEnd
           businessStart [])"
| "slotScan depth newEvent existingEvents excludeEventId eventDuration businessEnd
       currentSlot suggestions =
     (if currentSlot < businessEnd then
        (if addMinutes currentSlot eventDuration \<le> businessEnd then
           (case detectEventConflicts depth
                   (newEvent\<lparr> startDate := currentSlot,
                              endDate := addMinutes currentSlot eventDuration \<rparr>)
                   existingEvents excludeEventId
            of None \<Rightarrow> None
             | Some conflicts \<Rightarrow>
                 if \<not> hasConflict conflicts then
                   (if length (suggestions @ [currentSlot]) \<ge> 3
                    then Some (suggestions @ [currentSlot])
                    else slotScan depth newEvent existingEvents excludeEventId eventDuration
                           businessEnd (addMinutes currentSlot 30) (suggestions @ [currentSlot]))
                 else slotScan depth newEvent existingEvents excludeEventId eventDuration
                        businessEnd (addMinutes currentSlot 30) suggestions)
         else slotScan depth newEvent existingEvents excludeEventId eventDuration
                businessEnd (addMinutes currentSlot 30) suggestions)
      else Some suggestions)"
  by pat_completeness auto
termination
  by (relation "inv_image (less_than <*lex*> less_than <*lex*> less_than)
        (\<lambda>x. case x of
            Inl (depth, _) \<Rightarrow> (depth, 0, 0)
          | Inr (Inl (depth, _)) \<Rightarrow> (depth, 2, 0)
          | Inr (Inr (depth, _, _, _, _, businessEnd, currentSlot, _)) \<Rightarrow>
              (depth, 1, nat (businessEnd - currentSlot)))")
     (auto simp: addMinutes_def)

section \<open>Free time (conflict.utils.ts)\<close>

definition getTimeOfDayType :: "Date \<Rightarrow> TimeOfDay" where
  "getTimeOfDayType time =
     (let hour = getHours time
      in if hour < 12 then Morning else if hour < 17 then Afternoon else Evening)"

subsection \<open>findRecurringWeeklyPattern\<close>

text \<open>The table of hourly probes: start hour, end hour, label.\<close>

definition timeSlots :: "(int \<times> int \<times> string) list" where
  "timeSlots =
     [(9, 10, ''9-10 AM''), (10, 11, ''10-11 AM''), (11, 12, ''11 AM-12 PM''),
      (14, 15, ''2-3 PM''), (15, 16, ''3-4 PM''), (16, 17, ''4-5 PM'')]"

text \<open>\<^verbatim>\<open>events.some(event => areIntervalsOverlapping(slot, event, { inclusive: false }))\<close>.\<close>

definition probeConflict :: "CalendarEvent list \<Rightarrow> Date \<Rightarrow> Date \<Rightarrow> bool" where
  "probeConflict events probeStart probeEnd =
     list_ex
       (\<lambda>event. areIntervalsOverlapping probeStart probeEnd (startDate event) (endDate event))
       events"

definition probeSlot :: "Date \<Rightarrow> int \<Rightarrow> int \<Rightarrow> FreeTimeSlot" where
  "probeSlot day startHour endHour =
     \<lparr> slotStart = setHours day startHour, slotEnd = setHours day endHour, duration = 60,
       slotType = getTimeOfDayType (setHours day startHour) \<rparr>"

text \<open>The inner loop \<^verbatim>\<open>for (const day of weekDays)\<close>, with its two variables
  \<^verbatim>\<open>availableDays\<close> and \<^verbatim>\<open>sampleSlot\<close>.\<close>

fun dayScan ::
  "CalendarEvent list \<Rightarrow> int \<Rightarrow> int \<Rightarrow> Date list \<Rightarrow> nat \<Rightarrow> FreeTimeSlot option
     \<Rightarrow> nat \<times> FreeTimeSlot option" where
  "dayScan events startHour endHour [] availableDays sampleSlot = (availableDays, sampleSlot)"
| "dayScan events startHour endHour (day # days) availableDays sampleSlot =
     (if \<not> probeConflict events (setHours day startHour) (setHours day endHour)
      then dayScan events startHour endHour days (availableDays + 1)
             (case sampleSlot of
                None \<Rightarrow> Some (probeSlot day startHour endHour)
              | Some s \<Rightarrow> Some s)
      else dayScan events startHour endHour days availableDays sampleSlot)"

text \<open>The outer loop \<^verbatim>\<open>for (const timeSlot of timeSlots)\<close>, pushing to
  \<^verbatim>\<open>recurringSlots\<close>.\<close>

fun probeScan ::
  "CalendarEvent list \<Rightarrow> Date list \<Rightarrow> (int \<times> int \<times> string) list \<Rightarrow> FreeTimeSlot list
     \<Rightarrow> FreeTimeSlot list" where
  "probeScan events weekDays [] recurringSlots = recurringSlots"
| "probeScan events weekDays ((startHour, endHour, label) # rest) recurringSlots =
     (case dayScan events startHour endHour weekDays 0 None of
        (availableDays, sampleSlot) \<Rightarrow>
          probeScan events weekDays rest
            (case sampleSlot of
               Some slot \<Rightarrow> if availableDays \<ge> 4 then recurringSlots @ [slot] else recurringSlots
             | None \<Rightarrow> recurringSlots))"

definition findRecurringWeeklyPattern :: "CalendarEvent list \<Rightarrow> Date \<Rightarrow> FreeTimeSlot list" where
  "findRecurringWeeklyPattern events referenceDate =
     (let weekStart = startOfWeek referenceDate;
          weekEnd = endOfWeek referenceDate;
          weekDays = eachDayOfInterval weekStart weekEnd
      in probeScan events weekDays timeSlots [])"

subsection \<open>findFreeTimeSlots\<close>

text \<open>One round of \<^verbatim>\<open>for (const event of dayEvents)\<close> on the pair of \<^verbatim>\<open>currentTime\<close> and
  \<^verbatim>\<open>freeSlots\<close>.\<close>

definition gapSlot :: "Date \<Rightarrow> Date \<Rightarrow> FreeTimeSlot" where
  "gapSlot currentTime gapEnd =
     \<lparr> slotStart = currentTime, slotEnd = gapEnd,
       duration = differenceInMinutes gapEnd currentTime,
       slotType = getTimeOfDayType currentTime \<rparr>"

definition gapStep ::
  "Date \<Rightarrow> Date \<Rightarrow> int \<Rightarrow> CalendarEvent \<Rightarrow> Date \<times> FreeTimeSlot list
     \<Rightarrow> Date \<times> FreeTimeSlot list" where
  "gapStep businessStart businessEnd minDuration event state =
     (let currentTime = fst state;
          freeSlots = snd state;
          eventStart = (if startDate event < businessStart then businessStart
                        else startDate event);
          eventEnd = (if endDate event > businessEnd then businessEnd else endDate event)
      in (if eventEnd > currentTime then eventEnd else currentTime,
          if currentTime < eventStart
             \<and> differenceInMinutes eventStart currentTime \<ge> minDuration
          then freeSlots @ [gapSlot currentTime eventStart]
          else freeSlots))"

text \<open>The events of the target day in the order of the stable sort by start time.\<close>

definition dayEventsOf :: "CalendarEvent list \<Rightarrow> Date \<Rightarrow> CalendarEvent list" where
  "dayEventsOf events targetDate =
     sort_key startDate (filter (\<lambda>event. isSameDay (startDate event) targetDate) events)"

text \<open>\<^verbatim>\<open>freeSlots\<close> after the loop and the check for free time after the last event.\<close>

definition freeSlotsOf :: "CalendarEvent list \<Rightarrow> Date \<Rightarrow> int \<Rightarrow> FreeTimeSlot list" where
  "freeSlotsOf events targetDate minDuration =
     (let dayStart = startOfDay targetDate;
          businessStart = setHours dayStart 8;
          businessEnd = setHours dayStart 18;
          state = fold (gapStep businessStart businessEnd minDuration)
                    (dayEventsOf events targetDate) (businessStart, []);
          currentTime = fst state;
          freeSlots = snd state
      in if currentTime < businessEnd
            \<and> differenceInMinutes businessEnd currentTime \<ge> minDuration
         then freeSlots @ [gapSlot currentTime businessEnd]
         else freeSlots)"

text \<open>The callback of \<^verbatim>\<open>freeSlots.reduce\<close>.\<close>

definition longer :: "FreeTimeSlot \<Rightarrow> FreeTimeSlot option \<Rightarrow> FreeTimeSlot option" where
  "longer current longest =
     (case longest of
        None \<Rightarrow> Some current
      | Some l \<Rightarrow> if duration current > duration l then Some current else Some l)"

definition findFreeTimeSlots ::
  "CalendarEvent list \<Rightarrow> Date \<Rightarrow> int \<Rightarrow> FreeTimeFinderResult" where
  "findFreeTimeSlots events targetDate minDuration =
     (let freeSlots = freeSlotsOf events targetDate minDuration
      in \<lparr> longestFreeBlock = fold longer freeSlots None,
           nextAvailableHour = find (\<lambda>slot. duration slot \<ge> 60) freeSlots,
           recurringWeeklyPattern = findRecurringWeeklyPattern events targetDate,
           allFreeSlots = freeSlots \<rparr>)"

section \<open>Event utilities (event.utils.ts)\<close>

definition sortEventsByStartTime :: "CalendarEvent list \<Rightarrow> CalendarEvent list" where
  "sortEventsByStartTime events = sort_key startDate events"

text \<open>\<^verbatim>\<open>LayoutEvent\<close>: width and left are the numbers \<^verbatim>\<open>100 / columns.length\<close> and
  \<^verbatim>\<open>(columnIndex * 100) / columns.length\<close>, kept as exact quotients (the rounding of
  the floating-point division is not modelled).\<close>

record LayoutEvent = CalendarEvent +
  width :: rat
  left :: rat

text \<open>The body of \<^verbatim>\<open>sortedEvents.forEach\<close>: the event goes to the first column that is
  empty or whose last event has ended by its start, else to a new column.\<close>

fun placeEvent :: "CalendarEvent \<Rightarrow> CalendarEvent list list \<Rightarrow> CalendarEvent list list" where
  "placeEvent event [] = [[event]]"
| "placeEvent event (column # columns) =
     (if column = [] \<or> startDate event \<ge> endDate (last column)
      then (column @ [event]) # columns
      else column # placeEvent event columns)"

definition buildColumns :: "CalendarEvent list \<Rightarrow> CalendarEvent list list" where
  "buildColumns events = fold placeEvent (sortEventsByStartTime events) []"

definition layoutOf :: "nat \<Rightarrow> nat \<Rightarrow> CalendarEvent \<Rightarrow> LayoutEvent" where
  "layoutOf totalColumns columnIndex event =
     CalendarEvent.extend event
       \<lparr> width = 100 / of_nat totalColumns,
         left = (of_nat columnIndex * 100) / of_nat totalColumns \<rparr>"

definition calculateEventLayout :: "CalendarEvent list \<Rightarrow> LayoutEvent list" where
  "calculateEventLayout events =
     (let columns = buildColumns events
      in concat (map (\<lambda>(columnIndex, column). map (layoutOf (length columns) columnIndex) column)
                   (enumerate 0 columns)))"

text \<open>\<^verbatim>\<open>Partial<CalendarEvent>\<close>: the fields \<^verbatim>\<open>validateEvent\<close> reads, each of them optional.
  Titles and descriptions are taken to be ASCII, so that \<^verbatim>\<open>length\<close> counts what
  \<^verbatim>\<open>String.length\<close> counts and \<^verbatim>\<open>trim\<close> strips the ASCII white space.\<close>

record PartialEvent =
  titleOpt :: "string option"
  descriptionOpt :: "string option"
  startDateOpt :: "Date option"
  endDateOpt :: "Date option"

definition isWhiteSpace :: "char \<Rightarrow> bool" where
  "isWhiteSpace c = (c \<in> set [CHR 0x09, CHR 0x0A, CHR 0x0B, CHR 0x0C, CHR 0x0D, CHR 0x20])"

definition trim :: "string \<Rightarrow> string" where
  "trim s = rev (dropWhile isWhiteSpace (rev (dropWhile isWhiteSpace s)))"

definition validateEvent :: "PartialEvent \<Rightarrow> string list" where
  "validateEvent event =
     (if (case titleOpt event of None \<Rightarrow> True | Some t \<Rightarrow> trim t = [])
      then [''Title is required''] else [])
     @ (if (case titleOpt event of None \<Rightarrow> False | Some t \<Rightarrow> t \<noteq> [] \<and> length t > 100)
        then [''Title must be 100 characters or less''] else [])
     @ (if (case descriptionOpt event of None \<Rightarrow> False | Some d \<Rightarrow> d \<noteq> [] \<and> length d > 500)
        then [''Description must be 500 characters or less''] else [])
     @ (if startDateOpt event = None then [''Start date is required''] else [])
     @ (if endDateOpt event = None then [''End date is required''] else [])
     @ (case (startDateOpt event, endDateOpt event) of
          (Some s, Some e) \<Rightarrow> if s \<ge> e then [''End date must be after start date''] else []
        | _ \<Rightarrow> [])"

text \<open>The view of an \<^verbatim>\<open>Omit<CalendarEvent, 'id'>\<close> that \<^verbatim>\<open>addEvent\<close> of useEventManager
  hands to \<^verbatim>\<open>validateEvent\<close>: every field present.\<close>

definition asPartial :: "EventData \<Rightarrow> PartialEvent" where
  "asPartial e =
     \<lparr> titleOpt = Some (title e), descriptionOpt = description e,
       startDateOpt = Some (startDate e), endDateOpt = Some (endDate e) \<rparr>"

section \<open>Statements in the words of the specification\<close>

text \<open>The list of conflicting events as the specification describes it: the existing
  events, in their input order, that overlap the candidate and whose id differs from
  \<^verbatim>\<open>excludeId\<close>.\<close>

definition claimedConflicts ::
  "EventData \<Rightarrow> CalendarEvent list \<Rightarrow> string option \<Rightarrow> CalendarEvent list" where
  "claimedConflicts newEvent existingEvents excludeEventId =
     filter (\<lambda>event. Some (ident event) \<noteq> excludeEventId \<and>
                areIntervalsOverlapping (startDate newEvent) (endDate newEvent)
                  (startDate event) (endDate event))
       existingEvents"

text \<open>The weekly pattern as section 4.5 of the specification describes it. The days of
  a week on which a probe is conflict-free, in the order of the days:\<close>

definition freeDays :: "CalendarEvent list \<Rightarrow> Date list \<Rightarrow> int \<Rightarrow> int \<Rightarrow> Date list" where
  "freeDays events days startHour endHour =
     filter (\<lambda>day. \<not> probeConflict events (setHours day startHour) (setHours day endHour))
       days"

text \<open>The seven days, Monday to Sunday, of the week of the reference date:\<close>

definition weekOf :: "Date \<Rightarrow> Date list" where
  "weekOf referenceDate =
     map (\<lambda>i. startOfWeek referenceDate + i * msPerDay) [0, 1, 2, 3, 4, 5, 6]"

text \<open>A probe contributes one slot, on its first conflict-free day, when it is
  conflict-free on at least four days, and nothing otherwise:\<close>

definition patternOfProbe ::
  "CalendarEvent list \<Rightarrow> Date list \<Rightarrow> int \<times> int \<times> string \<Rightarrow> FreeTimeSlot list" where
  "patternOfProbe events days probe =
     (case probe of (startHour, endHour, label) \<Rightarrow>
        (let free = freeDays events days startHour endHour
         in if length free \<ge> 4 then [probeSlot (hd free) startHour endHour] else []))"

text \<open>The contributions of the probes, in the order of the table:\<close>

definition weeklyPatternSpec :: "CalendarEvent list \<Rightarrow> Date \<Rightarrow> FreeTimeSlot list" where
  "weeklyPatternSpec events referenceDate =
     concat (map (patternOfProbe events (weekOf referenceDate)) timeSlots)"

text \<open>\<^verbatim>\<open>overlaps(a, b)\<close> of section 4.1 of the specification, on two events: each starts
  strictly before the other ends.\<close>

definition overlapping :: "CalendarEvent \<Rightarrow> CalendarEvent \<Rightarrow> bool" where
  "overlapping a b =
     areIntervalsOverlapping (startDate a) (endDate a) (startDate b) (endDate b)"

text \<open>The invariant of an event in section 3 of the specification: it starts strictly
  before it ends.\<close>

definition eventInvariant :: "CalendarEvent \<Rightarrow> bool" where
  "eventInvariant event = (startDate event < endDate event)"

text \<open>The business window of the target day, the interval of an event clamped to it, and
  what it means for an instant to lie in a free slot or in a clamped event interval.\<close>

definition businessStartOf :: "Date \<Rightarrow> Date" where
  "businessStartOf targetDate = setHours (startOfDay targetDate) 8"

definition businessEndOf :: "Date \<Rightarrow> Date" where
  "businessEndOf targetDate = setHours (startOfDay targetDate) 18"

definition clampedStart :: "Date \<Rightarrow> CalendarEvent \<Rightarrow> Date" where
  "clampedStart targetDate event = max (startDate event) (businessStartOf targetDate)"

definition clampedEnd :: "Date \<Rightarrow> CalendarEvent \<Rightarrow> Date" where
  "clampedEnd targetDate event = min (endDate event) (businessEndOf targetDate)"

definition inSlot :: "Date \<Rightarrow> FreeTimeSlot \<Rightarrow> bool" where
  "inSlot t slot = (slotStart slot \<le> t \<and> t < slotEnd slot)"

definition inClampedEvent :: "Date \<Rightarrow> Date \<Rightarrow> CalendarEvent \<Rightarrow> bool" where
  "inClampedEvent targetDate t event =
     (clampedStart targetDate event \<le> t \<and> t < clampedEnd targetDate event)"

text \<open>How many times the free slots and the clamped events of the day cover an instant:
  the specification asks for exactly once at every instant of the window.\<close>

definition coverCount :: "CalendarEvent list \<Rightarrow> Date \<Rightarrow> int \<Rightarrow> Date \<Rightarrow> nat" where
  "coverCount events targetDate minDuration t =
     length (filter (inSlot t) (allFreeSlots (findFreeTimeSlots events targetDate minDuration)))
     + length (filter (inClampedEvent targetDate t) (dayEventsOf events targetDate))"

text \<open>The weak form of the invariant, an event that does not end before it starts; and
  an event that the walk over the day can take: it ends no earlier than it starts and
  starts no later than the end of the window.\<close>

definition endsAfterStart :: "CalendarEvent \<Rightarrow> bool" where
  "endsAfterStart event = (startDate event \<le> endDate event)"

definition walkable :: "Date \<Rightarrow> CalendarEvent \<Rightarrow> bool" where
  "walkable targetDate event =
     (startDate event \<le> endDate event \<and> startDate event \<le> businessEndOf targetDate)"

text \<open>The state of the loop of \<^verbatim>\<open>findFreeTimeSlots\<close>, the current time and the slots
  found so far, after a list of events of the day.\<close>

abbreviation loopState ::
  "Date \<Rightarrow> int \<Rightarrow> CalendarEvent list \<Rightarrow> Date \<times> FreeTimeSlot list" where
  "loopState d m es \<equiv>
     fold (gapStep (businessStartOf d) (businessEndOf d) m) es (businessStartOf d, [])"

section \<open>Sample data\<close>

text \<open>Events of day 0 of the time line. The stand-up from 09:00 to 10:00 and the client
  call from 09:30 to 10:30 are the scenario of section 8 of the specification; the
  others lie in the afternoon.\<close>

definition standup :: CalendarEvent where
  "standup = \<lparr> title = ''Standup'', description = None, startDate = 32400000,
               endDate = 36000000, color = ''#3b82f6'', category = ''Work'',
               ident = ''evt-1'' \<rparr>"

definition clientCall :: EventData where
  "clientCall = \<lparr> title = ''Client Call'', description = None, startDate = 34200000,
                  endDate = 37800000, color = ''#3b82f6'', category = ''Work'' \<rparr>"

text \<open>Review 14:30 to 15:30, planning 14:00 to 15:00, and a workshop to be placed from
  14:15 to 15:15.\<close>

definition review :: CalendarEvent where
  "review = \<lparr> title = ''Review'', description = None, startDate = 52200000,
              endDate = 55800000, color = ''#3b82f6'', category = ''Work'',
              ident = ''evt-2'' \<rparr>"

definition planning :: CalendarEvent where
  "planning = \<lparr> title = ''Planning'', description = None, startDate = 50400000,
                endDate = 54000000, color = ''#3b82f6'', category = ''Work'',
                ident = ''evt-3'' \<rparr>"

definition workshop :: EventData where
  "workshop = \<lparr> title = ''Workshop'', description = None, startDate = 51300000,
                endDate = 54900000, color = ''#3b82f6'', category = ''Work'' \<rparr>"

text \<open>A lunch from 14:00 to 15:00 whose id is the empty string, and a candidate of no
  length at 14:30.\<close>

definition lunch :: CalendarEvent where
  "lunch = \<lparr> title = ''Lunch'', description = None, startDate = 50400000,
             endDate = 54000000, color = ''#10b981'', category = ''Personal'',
             ident = [] \<rparr>"

definition instant :: EventData where
  "instant = \<lparr> title = ''Instant'', description = None, startDate = 52200000,
               endDate = 52200000, color = ''#3b82f6'', category = ''Work'' \<rparr>"

text \<open>Three mutually overlapping events starting at 10:00, 10:30 and 10:45 (section 8 of
  the specification).\<close>

definition design :: CalendarEvent where
  "design = \<lparr> title = ''Design'', description = None, startDate = 36000000,
              endDate = 39600000, color = ''#3b82f6'', category = ''Work'',
              ident = ''evt-4'' \<rparr>"

definition build :: CalendarEvent where
  "build = \<lparr> title = ''Build'', description = None, startDate = 37800000,
             endDate = 41400000, color = ''#3b82f6'', category = ''Work'',
             ident = ''evt-5'' \<rparr>"

definition demo :: CalendarEvent where
  "demo = \<lparr> title = ''Demo'', description = None, startDate = 38700000,
            endDate = 42300000, color = ''#3b82f6'', category = ''Work'',
            ident = ''evt-6'' \<rparr>"

text \<open>A midday block from 12:00 to 14:00, and a conference from Monday 00:00 of the week
  of day 0 to Thursday (day 0) 12:00.\<close>

definition midday :: CalendarEvent where
  "midday = \<lparr> title = ''Midday'', description = None, startDate = 43200000,
              endDate = 50400000, color = ''#3b82f6'', category = ''Work'',
              ident = ''evt-7'' \<rparr>"

definition conference :: CalendarEvent where
  "conference = \<lparr> title = ''Conference'', description = None, startDate = - 259200000,
                  endDate = 43200000, color = ''#3b82f6'', category = ''Work'',
                  ident = ''evt-8'' \<rparr>"

text \<open>An all-hands meeting from 08:30 to 18:00 and a dinner from 19:00 to 20:00.\<close>

definition allHands :: CalendarEvent where
  "allHands = \<lparr> title = ''All hands'', description = None, startDate = 30600000,
                endDate = 64800000, color = ''#3b82f6'', category = ''Work'',
                ident = ''evt-9'' \<rparr>"

definition dinner :: CalendarEvent where
  "dinner = \<lparr> title = ''Dinner'', description = None, startDate = 68400000,
              endDate = 72000000, color = ''#10b981'', category = ''Personal'',
              ident = ''evt-10'' \<rparr>"

text \<open>A retreat that fills the whole week of day 0, Monday 00:00 to the next Monday
  00:00, and two records of day 0 that start at 10:00 and end before they start, at
  07:00 and at 09:00.\<close>

definition retreat :: CalendarEvent where
  "retreat = \<lparr> title = ''Retreat'', description = None, startDate = - 259200000,
               endDate = 345600000, color = ''#3b82f6'', category = ''Work'',
               ident = ''evt-11'' \<rparr>"

definition reversedA :: CalendarEvent where
  "reversedA = \<lparr> title = ''Reversed A'', description = None, startDate = 36000000,
                 endDate = 25200000, color = ''#3b82f6'', category = ''Work'',
                 ident = ''evt-12'' \<rparr>"

definition reversedB :: CalendarEvent where
  "reversedB = \<lparr> title = ''Reversed B'', description = None, startDate = 36000000,
                 endDate = 32400000, color = ''#3b82f6'', category = ''Work'',
                 ident = ''evt-13'' \<rparr>"

text \<open>A candidate from 10:00 back to 09:00.\<close>

definition backwards :: EventData where
  "backwards = \<lparr> title = ''Backwards'', description = None, startDate = 36000000,
                 endDate = 32400000, color = ''#3b82f6'', category = ''Work'' \<rparr>"

section \<open>Properties of conflict detection\<close>

declare detectEventConflicts.simps [simp del]
declare generateAlternativeTimeSlots.simps [simp del]
declare slotScan.simps [simp del]

lemma isConflicting_iff:
  "isConflicting newEvent excludeEventId event \<longleftrightarrow>
     (excludeEventId = None \<or> excludeEventId = Some [] \<or> Some (ident event) \<noteq> excludeEventId)
     \<and> areIntervalsOverlapping (startDate newEvent) (endDate newEvent)
           (startDate event) (endDate event)"
  by (auto simp: isConflicting_def split: option.splits)

text \<open>What a returned \<^verbatim>\<open>ConflictInfo\<close> holds.\<close>

lemma detectEventConflicts_SomeD:
  assumes "detectEventConflicts depth newEvent existingEvents excludeEventId = Some info"
  shows "conflictingEvents info = filter (isConflicting newEvent excludeEventId) existingEvents"
    and "hasConflict info = (conflictingEvents info \<noteq> [])"
    and "conflictMessage info = buildConflictMessage (conflictingEvents info)"
    and "\<not> hasConflict info \<Longrightarrow> suggestedTimes info = []"
  using assms
  by (cases depth; auto simp: detectEventConflicts.simps Let_def split: if_splits option.splits)+

text \<open>Without a conflict the suggester is not called, and one level of depth is enough.\<close>

lemma detectEventConflicts_no_conflict:
  assumes "filter (isConflicting newEvent excludeEventId) existingEvents = []"
  shows "detectEventConflicts (Suc depth) newEvent existingEvents excludeEventId =
           Some \<lparr> hasConflict = False, conflictingEvents = [], conflictMessage = [],
                  suggestedTimes = [] \<rparr>"
  using assms by (simp add: detectEventConflicts.simps Let_def buildConflictMessage_def)

text \<open>The depth only bounds the recursion: a call that returns at some depth returns the
  same result at every greater depth. So a call is \<^verbatim>\<open>None\<close> at every depth exactly when
  the recursion of the source does not end.\<close>

lemma depth_Suc:
  "(\<forall>r. detectEventConflicts depth newEvent evs ex = Some r
        \<longrightarrow> detectEventConflicts (Suc depth) newEvent evs ex = Some r)
   \<and> (\<forall>r. generateAlternativeTimeSlots depth newEvent evs ex = Some r
        \<longrightarrow> generateAlternativeTimeSlots (Suc depth) newEvent evs ex = Some r)
   \<and> (\<forall>r dur be cur sugg. slotScan depth newEvent evs ex dur be cur sugg = Some r
        \<longrightarrow> slotScan (Suc depth) newEvent evs ex dur be cur sugg = Some r)"
proof (induction depth arbitrary: newEvent)
  case 0
  have "slotScan 0 newEvent evs ex dur be cur sugg = Some r
        \<Longrightarrow> slotScan (Suc 0) newEvent evs ex dur be cur sugg = Some r" for r dur be cur sugg
  proof (induction "nat (be - cur)" arbitrary: cur sugg rule: less_induct)
    case less
    show ?case
    proof (cases "cur < be")
      case False
      then show ?thesis using less.prems by (simp add: slotScan.simps)
    next
      case True
      have "addMinutes cur dur \<le> be \<Longrightarrow> False"
        using less.prems True by (subst (asm) slotScan.simps) (simp add: detectEventConflicts.simps)
      then have nf: "\<not> addMinutes cur dur \<le> be" by blast
      then have "slotScan 0 newEvent evs ex dur be (addMinutes cur 30) sugg = Some r"
        using less.prems True by (subst (asm) slotScan.simps) simp
      then have "slotScan (Suc 0) newEvent evs ex dur be (addMinutes cur 30) sugg = Some r"
        using True by (intro less.hyps) (simp_all add: addMinutes_def)
      then show ?thesis using True nf by (subst slotScan.simps) simp
    qed
  qed
  then show ?case
    by (simp add: detectEventConflicts.simps generateAlternativeTimeSlots.simps Let_def)
next
  case (Suc d)
  note IH = Suc.IH
  have det: "detectEventConflicts (Suc (Suc d)) ne evs ex = Some r"
    if "detectEventConflicts (Suc d) ne evs ex = Some r" for ne r
    using that IH[of ne]
    by (auto simp: detectEventConflicts.simps Let_def split: if_splits option.splits)
  have scan: "slotScan (Suc d) ne evs ex dur be cur sugg = Some r
        \<Longrightarrow> slotScan (Suc (Suc d)) ne evs ex dur be cur sugg = Some r" for ne r dur be cur sugg
  proof (induction "nat (be - cur)" arbitrary: cur sugg rule: less_induct)
    case less
    show ?case
    proof (cases "cur < be")
      case False
      then show ?thesis using less.prems by (simp add: slotScan.simps)
    next
      case True
      have rec: "slotScan (Suc (Suc d)) ne evs ex dur be (addMinutes cur 30) s = Some r"
        if "slotScan (Suc d) ne evs ex dur be (addMinutes cur 30) s = Some r" for s
        using that True by (intro less.hyps) (simp_all add: addMinutes_def)
      show ?thesis
      proof (cases "addMinutes cur dur \<le> be")
        case False
        then show ?thesis
          using less.prems True rec[of sugg]
          by (subst slotScan.simps, subst (asm) slotScan.simps) simp
      next
        case fits: True
        let ?probe = "ne\<lparr> startDate := cur, endDate := addMinutes cur dur \<rparr>"
        from less.prems True fits obtain info where
          d: "detectEventConflicts (Suc d) ?probe evs ex = Some info"
          by (subst (asm) slotScan.simps) (auto split: option.splits)
        note d' = det[OF d]
        show ?thesis
          using less.prems True fits rec[of sugg] rec[of "sugg @ [cur]"]
          by (subst slotScan.simps, subst (asm) slotScan.simps) (auto simp: d d')
      qed
    qed
  qed
  show ?case
    using det[of newEvent] scan[of newEvent]
    by (auto simp: generateAlternativeTimeSlots.simps Let_def)
qed

lemma detectEventConflicts_depth_mono:
  assumes "detectEventConflicts depth newEvent evs ex = Some info"
  shows "detectEventConflicts (depth + k) newEvent evs ex = Some info"
  using assms depth_Suc[of _ newEvent evs ex]
  by (induction k) auto

lemma generateAlternativeTimeSlots_depth_mono:
  assumes "generateAlternativeTimeSlots depth newEvent evs ex = Some suggested"
  shows "generateAlternativeTimeSlots (depth + k) newEvent evs ex = Some suggested"
  using assms depth_Suc[of _ newEvent evs ex]
  by (induction k) auto

text \<open>Three runs that return: the workshop against review and planning, the workshop
  against the stand-up of the morning, the workshop against the lunch.\<close>

lemma run_workshop:
  "detectEventConflicts 2 workshop [review, planning] None =
     Some \<lparr> hasConflict = True, conflictingEvents = [review, planning],
            conflictMessage = ''You have 2 conflicting events starting with '' @ [CHR 0x22]
               @ ''Review'' @ [CHR 0x22] @ '' at 2:30 PM'' @ enDash @ ''3:30 PM'',
            suggestedTimes = [28800000, 30600000, 32400000] \<rparr>"
  by code_simp

lemma run_workshop_standup:
  "detectEventConflicts (Suc 0) workshop [standup] None =
     Some \<lparr> hasConflict = False, conflictingEvents = [], conflictMessage = [],
            suggestedTimes = [] \<rparr>"
  by code_simp

lemma run_workshop_lunch:
  "detectEventConflicts 2 workshop [lunch] (Some ''evt-3'') =
     Some \<lparr> hasConflict = True, conflictingEvents = [lunch],
            conflictMessage = ''You already have '' @ [CHR 0x22] @ ''Lunch'' @ [CHR 0x22]
               @ '' from 2:00 PM'' @ enDash @ ''3:00 PM'',
            suggestedTimes = [28800000, 30600000, 32400000] \<rparr>"
  by code_simp

subsection \<open>C9: the flag, the list, the suggestions and the message agree\<close>

text \<open>
  Claim C9. Every \<^verbatim>\<open>ConflictInfo\<close> that \<^verbatim>\<open>detectEventConflicts\<close> returns has
  \<^verbatim>\<open>hasConflict\<close> true exactly when \<^verbatim>\<open>conflictingEvents\<close> is not empty, and both
  \<^verbatim>\<open>suggestedTimes\<close> and \<^verbatim>\<open>conflictMessage\<close> are empty when \<^verbatim>\<open>hasConflict\<close> is false.
\<close>

theorem detectEventConflicts_flags_consistent:
  "detectEventConflicts depth newEvent existingEvents excludeEventId = Some info \<Longrightarrow>
     (hasConflict info \<longleftrightarrow> conflictingEvents info \<noteq> []) \<and>
     (\<not> hasConflict info \<longrightarrow> suggestedTimes info = [] \<and> conflictMessage info = [])"
  using detectEventConflicts_SomeD[of depth newEvent existingEvents excludeEventId info]
  by (auto simp: buildConflictMessage_def)

text \<open>Witness for C9: a run with two conflicts and a run with none.\<close>

theorem detectEventConflicts_flags_consistent_witness:
  "(case detectEventConflicts 2 workshop [review, planning] None of
      None \<Rightarrow> False
    | Some info \<Rightarrow> hasConflict info \<and> conflictingEvents info \<noteq> [])
   \<and> (case detectEventConflicts 1 workshop [standup] None of
         None \<Rightarrow> False
       | Some info \<Rightarrow> \<not> hasConflict info \<and> conflictingEvents info = []
                      \<and> suggestedTimes info = [] \<and> conflictMessage info = [])"
  using detectEventConflicts_flags_consistent[OF run_workshop]
    detectEventConflicts_flags_consistent[OF run_workshop_standup]
  by (simp add: run_workshop run_workshop_standup)

subsection \<open>C10: the conflicting events are the filtered input, in input order\<close>

text \<open>
  Counterexample for claim C10 as stated. The lunch has the empty id and the call asks to
  exclude the empty id: the lunch does not differ from \<^verbatim>\<open>excludeId\<close>, so the claimed list
  is empty, yet the code returns the lunch as a conflict, because its guard reads an
  empty \<^verbatim>\<open>excludeEventId\<close> as absent.
\<close>

theorem conflictingEvents_empty_excludeId_counterexample:
  "map_option conflictingEvents (detectEventConflicts 2 workshop [lunch] (Some [])) = Some [lunch]
   \<and> claimedConflicts workshop [lunch] (Some []) = []"
  by code_simp

text \<open>
  Claim C10, amended. Whenever \<^verbatim>\<open>detectEventConflicts\<close> returns, \<^verbatim>\<open>conflictingEvents\<close> is
  the subsequence of \<^verbatim>\<open>existingEvents\<close>, in the input order and with nothing sorted, of
  the events that strictly overlap the candidate and whose id differs from \<^verbatim>\<open>excludeId\<close>;
  an \<^verbatim>\<open>excludeId\<close> that is the empty string excludes nothing, like an absent one.
\<close>

theorem conflictingEvents_is_filtered_input:
  "detectEventConflicts depth newEvent existingEvents excludeEventId = Some info \<Longrightarrow>
     (excludeEventId \<noteq> Some [] \<longrightarrow>
        conflictingEvents info = claimedConflicts newEvent existingEvents excludeEventId) \<and>
     (excludeEventId = Some [] \<longrightarrow>
        conflictingEvents info = claimedConflicts newEvent existingEvents None)"
  using detectEventConflicts_SomeD(1)[of depth newEvent existingEvents excludeEventId info]
  by (auto simp: claimedConflicts_def isConflicting_iff intro!: filter_cong)

text \<open>Witness for C10: review and planning are returned in the order they were given,
  which is not the order of their start times.\<close>

theorem conflictingEvents_is_filtered_input_witness:
  "map_option conflictingEvents (detectEventConflicts 2 workshop [review, planning] None)
     = Some [review, planning]
   \<and> claimedConflicts workshop [review, planning] None = [review, planning]
   \<and> startDate planning < startDate review"
  using conflictingEvents_is_filtered_input[OF run_workshop]
  by (simp add: run_workshop) code_simp

subsection \<open>C4: the event named by the message\<close>

text \<open>
  Counterexample for claim C4 as stated. Review (14:30) is given before planning (14:00);
  both conflict with the workshop, planning starts first, and the message names the
  review.
\<close>

theorem conflictMessage_not_earliest_counterexample:
  "map_option conflictMessage (detectEventConflicts 2 workshop [review, planning] None)
     = Some (''You have 2 conflicting events starting with '' @ [CHR 0x22] @ ''Review''
               @ [CHR 0x22] @ '' at 2:30 PM'' @ enDash @ ''3:30 PM'')
   \<and> map_option conflictingEvents (detectEventConflicts 2 workshop [review, planning] None)
     = Some [review, planning]
   \<and> startDate planning < startDate review
   \<and> title planning = ''Planning''"
  by code_simp

lemma hd_filter_sorted:
  assumes "sorted (map f xs)" and "x \<in> set (filter P xs)"
  shows "f (hd (filter P xs)) \<le> f x"
  using assms by (induction xs) (auto split: if_splits)

text \<open>
  Claim C4, amended. When \<^verbatim>\<open>detectEventConflicts\<close> returns with two or more conflicting
  events, the message gives their number and names the first conflicting event in the
  order in which \<^verbatim>\<open>existingEvents\<close> was supplied; that event is the earliest-starting
  conflict when \<^verbatim>\<open>existingEvents\<close> is supplied sorted by start time.
\<close>

theorem conflictMessage_names_first_conflict:
  assumes "detectEventConflicts depth newEvent existingEvents excludeEventId = Some info"
    and "length (conflictingEvents info) \<ge> 2"
  shows "conflictMessage info =
           ''You have '' @ showNat (length (conflictingEvents info))
             @ '' conflicting events starting with '' @ [CHR 0x22]
             @ title (hd (conflictingEvents info)) @ [CHR 0x22] @ '' at ''
             @ format_h_mm_a (startDate (hd (conflictingEvents info))) @ enDash
             @ format_h_mm_a (endDate (hd (conflictingEvents info)))
         \<and> hd (conflictingEvents info)
             = hd (filter (isConflicting newEvent excludeEventId) existingEvents)
         \<and> (sorted (map startDate existingEvents) \<longrightarrow>
              (\<forall>event \<in> set (conflictingEvents info).
                 startDate (hd (conflictingEvents info)) \<le> startDate event))"
proof -
  note D = detectEventConflicts_SomeD[OF assms(1)]
  obtain a b rest where c: "conflictingEvents info = a # b # rest"
    using assms(2) by (cases "conflictingEvents info"; cases "tl (conflictingEvents info)") auto
  have m: "conflictMessage info = buildConflictMessage (a # b # rest)"
    using D(3) c by simp
  show ?thesis
    unfolding m
    using hd_filter_sorted[of startDate existingEvents _ "isConflicting newEvent excludeEventId"]
    by (auto simp: c D(1)[symmetric] buildConflictMessage_def Let_def)
qed

text \<open>Witness for C4: planning and review given in the order of their start times.\<close>

theorem conflictMessage_names_first_conflict_witness:
  "(case detectEventConflicts 2 workshop [planning, review] None of
      None \<Rightarrow> False
    | Some info \<Rightarrow>
        length (conflictingEvents info) = 2
        \<and> hd (conflictingEvents info) = planning
        \<and> conflictMessage info =
            ''You have 2 conflicting events starting with '' @ [CHR 0x22] @ ''Planning''
              @ [CHR 0x22] @ '' at 2:00 PM'' @ enDash @ ''3:00 PM'')
   \<and> sorted (map startDate [planning, review])"
proof -
  have run: "detectEventConflicts 2 workshop [planning, review] None =
     Some \<lparr> hasConflict = True, conflictingEvents = [planning, review],
            conflictMessage = ''You have 2 conflicting events starting with '' @ [CHR 0x22]
               @ ''Planning'' @ [CHR 0x22] @ '' at 2:00 PM'' @ enDash @ ''3:00 PM'',
            suggestedTimes = [28800000, 30600000, 32400000] \<rparr>"
    by code_simp
  have s: "sorted (map startDate [planning, review])"
    by (simp add: planning_def review_def)
  show ?thesis
    using conflictMessage_names_first_conflict[OF run] s
    by (simp add: run)
qed

subsection \<open>C5: a candidate that does not end after its start\<close>

text \<open>When every existing event carries the excluded id, the callback of the filter
  returns before it compares any interval.\<close>

lemma filter_all_excluded:
  assumes "\<forall>event \<in> set existingEvents. excludeEventId = Some (ident event) \<and> ident event \<noteq> []"
  shows "filter (isConflicting newEvent excludeEventId) existingEvents = []"
  using assms by (auto simp: filter_empty_conv isConflicting_def)

text \<open>
  Counterexample for claim C5 as stated. One candidate starts and ends at 14:30, the other
  runs from 10:00 back to 09:00. Against no event each call returns the default result,
  and against the lunch the candidate of no length gets an ordinary conflict with three
  suggestions: nothing is rejected.
\<close>

theorem detectEventConflicts_invalid_candidate_counterexample:
  "startDate instant \<ge> endDate instant
   \<and> detectEventConflicts 1 instant [] None =
       Some \<lparr> hasConflict = False, conflictingEvents = [], conflictMessage = [],
              suggestedTimes = [] \<rparr>
   \<and> map_option suggestedTimes (detectEventConflicts 2 instant [lunch] None)
       = Some [28800000, 30600000, 32400000]
   \<and> startDate backwards > endDate backwards
   \<and> detectEventConflicts 1 backwards [] None =
       Some \<lparr> hasConflict = False, conflictingEvents = [], conflictMessage = [],
              suggestedTimes = [] \<rparr>"
  by code_simp

text \<open>
  Claim C5, amended. \<^verbatim>\<open>detectEventConflicts\<close> does not validate its candidate. For a
  candidate with start >= end, \<^verbatim>\<open>validateEvent\<close> reports
  \<^verbatim>\<open>End date must be after start date\<close>, while \<^verbatim>\<open>detectEventConflicts\<close> returns the default
  result (no conflict, no events, empty message, no suggestions) when there is no
  existing event to compare with (the list is empty, or every event in it carries the
  excluded id), and, for a candidate with start = end, also when none of the existing
  events, each with start <= end, strictly overlaps it. What the interval test of the
  library does with a candidate whose start is after its end is left open.
\<close>

theorem detectEventConflicts_does_not_validate:
  assumes "startDate newEvent \<ge> endDate newEvent"
  shows "''End date must be after start date'' \<in> set (validateEvent (asPartial newEvent))
         \<and> ((\<forall>event \<in> set existingEvents.
                excludeEventId = Some (ident event) \<and> ident event \<noteq> []) \<longrightarrow>
              detectEventConflicts (Suc depth) newEvent existingEvents excludeEventId =
                Some \<lparr> hasConflict = False, conflictingEvents = [], conflictMessage = [],
                       suggestedTimes = [] \<rparr>)
         \<and> (startDate newEvent = endDate newEvent
              \<and> list_all endsAfterStart existingEvents
              \<and> filter (isConflicting newEvent excludeEventId) existingEvents = [] \<longrightarrow>
              detectEventConflicts (Suc depth) newEvent existingEvents excludeEventId =
                Some \<lparr> hasConflict = False, conflictingEvents = [], conflictMessage = [],
                       suggestedTimes = [] \<rparr>)"
proof -
  have v: "''End date must be after start date'' \<in> set (validateEvent (asPartial newEvent))"
    using assms by (simp add: validateEvent_def asPartial_def)
  show ?thesis
    using v detectEventConflicts_no_conflict[of newEvent excludeEventId existingEvents depth]
      filter_all_excluded[of existingEvents excludeEventId newEvent]
    by blast
qed

text \<open>Witness for C5: the candidate from 10:00 back to 09:00 against the stand-up, which
  is the excluded event, and the candidate of no length against the stand-up.\<close>

theorem detectEventConflicts_does_not_validate_witness:
  "startDate backwards \<ge> endDate backwards
   \<and> ident standup = ''evt-1''
   \<and> detectEventConflicts 1 backwards [standup] (Some ''evt-1'') =
       Some \<lparr> hasConflict = False, conflictingEvents = [], conflictMessage = [],
              suggestedTimes = [] \<rparr>
   \<and> validateEvent (asPartial backwards) = [''End date must be after start date'']
   \<and> startDate instant = endDate instant
   \<and> list_all endsAfterStart [standup]
   \<and> filter (isConflicting instant None) [standup] = []
   \<and> detectEventConflicts 1 instant [standup] None =
       Some \<lparr> hasConflict = False, conflictingEvents = [], conflictMessage = [],
              suggestedTimes = [] \<rparr>
   \<and> validateEvent (asPartial instant) = [''End date must be after start date'']"
proof -
  have a: "startDate backwards \<ge> endDate backwards" "startDate instant \<ge> endDate instant"
    "startDate instant = endDate instant"
    by (simp_all add: backwards_def instant_def)
  have x: "ident standup = ''evt-1''"
    by (simp add: standup_def)
  have l: "list_all endsAfterStart [standup]"
    by (simp add: endsAfterStart_def standup_def)
  have f: "filter (isConflicting instant None) [standup] = []"
    by (simp add: isConflicting_def areIntervalsOverlapping_def instant_def standup_def)
  have v: "validateEvent (asPartial backwards) = [''End date must be after start date'']"
    "validateEvent (asPartial instant) = [''End date must be after start date'']"
    by code_simp+
  show ?thesis
    using detectEventConflicts_does_not_validate[OF a(1), of "[standup]" "Some ''evt-1''" 0]
      detectEventConflicts_does_not_validate[OF a(2), of "[standup]" None 0]
      a x l f v
    by simp
qed

subsection \<open>C2: the scan for alternative times\<close>

text \<open>The loop, from any time of the scan and any list of suggestions made so far.\<close>

lemma slotScan_sound:
  assumes "slotScan depth newEvent evs ex dur be cur sugg = Some res"
  shows "\<exists>new. res = sugg @ new
           \<and> length res \<le> max 3 (Suc (length sugg))
           \<and> sorted_wrt (<) new
           \<and> (\<forall>t \<in> set new.
                 cur \<le> t \<and> t < be \<and> addMinutes t dur \<le> be
                 \<and> (t - cur) mod (30 * msPerMinute) = 0
                 \<and> (\<exists>info. detectEventConflicts depth
                               (newEvent\<lparr> startDate := t, endDate := addMinutes t dur \<rparr>) evs ex
                             = Some info
                           \<and> \<not> hasConflict info))"
  using assms
proof (induction "nat (be - cur)" arbitrary: cur sugg rule: less_induct)
  case less
  let ?next = "addMinutes cur 30"
  let ?goal = "\<lambda>cur sugg. \<exists>new. res = sugg @ new
           \<and> length res \<le> max 3 (Suc (length sugg))
           \<and> sorted_wrt (<) new
           \<and> (\<forall>t \<in> set new.
                 cur \<le> t \<and> t < be \<and> addMinutes t dur \<le> be
                 \<and> (t - cur) mod (30 * msPerMinute) = 0
                 \<and> (\<exists>info. detectEventConflicts depth
                               (newEvent\<lparr> startDate := t, endDate := addMinutes t dur \<rparr>) evs ex
                             = Some info
                           \<and> \<not> hasConflict info))"
  have step: "?goal ?next s" if "cur < be" "slotScan depth newEvent evs ex dur be ?next s = Some res" for s
    using that by (intro less.hyps) (simp_all add: addMinutes_def)
  have later: "\<exists>new. res = s @ new \<and> sorted_wrt (<) new
           \<and> (\<forall>t \<in> set new.
                 cur < t \<and> t < be \<and> addMinutes t dur \<le> be
                 \<and> (t - cur) mod (30 * msPerMinute) = 0
                 \<and> (\<exists>info. detectEventConflicts depth
                               (newEvent\<lparr> startDate := t, endDate := addMinutes t dur \<rparr>) evs ex
                             = Some info
                           \<and> \<not> hasConflict info))
           \<and> length res \<le> max 3 (Suc (length s))"
    if "cur < be" "slotScan depth newEvent evs ex dur be ?next s = Some res" for s
  proof -
    from step[OF that] obtain new where n: "res = s @ new" "length res \<le> max 3 (Suc (length s))"
      "sorted_wrt (<) new"
      and all: "\<forall>t \<in> set new.
                 ?next \<le> t \<and> t < be \<and> addMinutes t dur \<le> be
                 \<and> (t - ?next) mod (30 * msPerMinute) = 0
                 \<and> (\<exists>info. detectEventConflicts depth
                               (newEvent\<lparr> startDate := t, endDate := addMinutes t dur \<rparr>) evs ex
                             = Some info
                           \<and> \<not> hasConflict info)"
      by blast
    have "(t - cur) mod (30 * msPerMinute) = 0" if "(t - ?next) mod (30 * msPerMinute) = 0" for t
    proof -
      have "t - cur = (t - ?next) + 30 * msPerMinute" by (simp add: addMinutes_def)
      then show ?thesis using that by (simp only: mod_add_self2)
    qed
    moreover have "cur < t" if "?next \<le> t" for t using that by (simp add: addMinutes_def)
    ultimately show ?thesis using n all by blast
  qed
  show ?case
  proof (cases "cur < be")
    case False
    then have "res = sugg" using less.prems by (subst (asm) slotScan.simps) simp
    then show ?thesis by simp
  next
    case inside: True
    show ?thesis
    proof (cases "addMinutes cur dur \<le> be")
      case False
      then have "slotScan depth newEvent evs ex dur be ?next sugg = Some res"
        using less.prems inside by (subst (asm) slotScan.simps) simp
      from later[OF inside this] show ?thesis by force
    next
      case fits: True
      let ?probe = "newEvent\<lparr> startDate := cur, endDate := addMinutes cur dur \<rparr>"
      from less.prems inside fits obtain info where
        d: "detectEventConflicts depth ?probe evs ex = Some info"
        by (subst (asm) slotScan.simps) (auto split: option.splits)
      show ?thesis
      proof (cases "hasConflict info")
        case True
        then have "slotScan depth newEvent evs ex dur be ?next sugg = Some res"
          using less.prems inside fits d by (subst (asm) slotScan.simps) simp
        from later[OF inside this] show ?thesis by force
      next
        case free: False
        show ?thesis
        proof (cases "length (sugg @ [cur]) \<ge> 3")
          case True
          then have "res = sugg @ [cur]"
            using less.prems inside fits d free by (subst (asm) slotScan.simps) simp
          then show ?thesis using inside fits d free by auto
        next
          case False
          then have "slotScan depth newEvent evs ex dur be ?next (sugg @ [cur]) = Some res"
            using less.prems inside fits d free by (subst (asm) slotScan.simps) simp
          from later[OF inside this] obtain new where n: "res = (sugg @ [cur]) @ new"
            "sorted_wrt (<) new" "length res \<le> max 3 (Suc (length (sugg @ [cur])))"
            and all: "\<forall>t \<in> set new.
                 cur < t \<and> t < be \<and> addMinutes t dur \<le> be
                 \<and> (t - cur) mod (30 * msPerMinute) = 0
                 \<and> (\<exists>info. detectEventConflicts depth
                               (newEvent\<lparr> startDate := t, endDate := addMinutes t dur \<rparr>) evs ex
                             = Some info
                           \<and> \<not> hasConflict info)"
            by blast
          have "res = sugg @ (cur # new)" using n(1) by simp
          moreover have "length res \<le> max 3 (Suc (length sugg))" using n(3) False by simp
          moreover have "sorted_wrt (<) (cur # new)" using n(2) all by simp
          moreover have "\<forall>t \<in> set (cur # new).
                 cur \<le> t \<and> t < be \<and> addMinutes t dur \<le> be
                 \<and> (t - cur) mod (30 * msPerMinute) = 0
                 \<and> (\<exists>info. detectEventConflicts depth
                               (newEvent\<lparr> startDate := t, endDate := addMinutes t dur \<rparr>) evs ex
                             = Some info
                           \<and> \<not> hasConflict info)"
            using all inside fits d free by auto
          ultimately show ?thesis by blast
        qed
      qed
    qed
  qed
qed

text \<open>What holds of every list the suggester returns: at most three times, strictly
  increasing, each on the 30-minute grid of the window from 08:00 to 18:00 of the day of
  the candidate, each leaving room for the duration of the candidate in whole minutes,
  and each free of conflicts when the candidate is moved there.\<close>

lemma generateAlternativeTimeSlots_sound:
  assumes "generateAlternativeTimeSlots depth newEvent existingEvents excludeEventId = Some suggested"
  shows "length suggested \<le> 3 \<and> sorted_wrt (<) suggested
         \<and> (\<forall>t \<in> set suggested.
               businessStartOf (startDate newEvent) \<le> t \<and> t < businessEndOf (startDate newEvent)
               \<and> (t - businessStartOf (startDate newEvent)) mod (30 * msPerMinute) = 0
               \<and> addMinutes t (differenceInMinutes (endDate newEvent) (startDate newEvent))
                   \<le> businessEndOf (startDate newEvent)
               \<and> (\<exists>info. detectEventConflicts depth
                      (newEvent\<lparr> startDate := t,
                         endDate := addMinutes t
                           (differenceInMinutes (endDate newEvent) (startDate newEvent)) \<rparr>)
                      existingEvents excludeEventId = Some info
                    \<and> \<not> hasConflict info))"
proof -
  from assms have "slotScan depth newEvent existingEvents excludeEventId
      (differenceInMinutes (endDate newEvent) (startDate newEvent))
      (businessEndOf (startDate newEvent)) (businessStartOf (startDate newEvent)) [] = Some suggested"
    by (simp add: generateAlternativeTimeSlots.simps Let_def businessStartOf_def businessEndOf_def)
  from slotScan_sound[OF this] show ?thesis by simp
qed

text \<open>The probe from 08:30 to 09:30 conflicts with the stand-up. Asking for its
  alternatives scans the same day with the same duration, reaches the same probe after
  one acceptance, and asks again: no depth is enough.\<close>

lemma probe_0830_diverges:
  "generateAlternativeTimeSlots depth
     (clientCall\<lparr> startDate := 30600000, endDate := 34200000 \<rparr>) [standup] None = None"
proof (induction depth)
  case 0
  show ?case
    by (simp add: generateAlternativeTimeSlots.simps slotScan.simps
        detectEventConflicts.simps clientCall_def Let_def differenceInMinutes_def
        startOfDay_def setHours_def addMinutes_def)
next
  case (Suc d)
  have P: "clientCall\<lparr> startDate := 30600000, endDate := 34200000 \<rparr> =
             \<lparr> title = ''Client Call'', description = None, startDate = 30600000,
               endDate = 34200000, color = ''#3b82f6'', category = ''Work'' \<rparr>"
    by (simp add: clientCall_def)
  show ?case
    using Suc unfolding P
    apply (subst generateAlternativeTimeSlots.simps)
    apply (simp add: Let_def differenceInMinutes_def startOfDay_def setHours_def)
    apply (subst slotScan.simps)
    apply (simp add: addMinutes_def detectEventConflicts.simps standup_def isConflicting_def
        areIntervalsOverlapping_def)
    apply (subst slotScan.simps)
    apply (simp add: addMinutes_def detectEventConflicts.simps standup_def isConflicting_def
        areIntervalsOverlapping_def)
    done
qed

text \<open>
  Claim C2, at the scenario of section 8 of the specification: the client call from 09:30
  to 10:30 against the stand-up from 09:00 to 10:00. The claim promises at most three
  conflict-free times; at every depth of the call stack the scan is still running, and so
  is the conflict detection that called it: neither returns.
\<close>

theorem alternatives_scan_does_not_return:
  "generateAlternativeTimeSlots depth clientCall [standup] None = None
   \<and> detectEventConflicts depth clientCall [standup] None = None"
proof -
  have g: "generateAlternativeTimeSlots d clientCall [standup] None = None" for d
  proof (cases d)
    case 0
    then show ?thesis
      by (simp add: generateAlternativeTimeSlots.simps slotScan.simps
          detectEventConflicts.simps clientCall_def Let_def differenceInMinutes_def
          startOfDay_def setHours_def addMinutes_def)
  next
    case (Suc k)
    have c: "isConflicting
                (clientCall\<lparr> startDate := 30600000, endDate := 34200000 \<rparr>) None standup"
      by (simp add: isConflicting_def areIntervalsOverlapping_def clientCall_def standup_def)
    have p: "detectEventConflicts (Suc k)
               (clientCall\<lparr> startDate := 30600000, endDate := 34200000 \<rparr>) [standup] None
             = None"
      by (simp add: detectEventConflicts.simps Let_def c probe_0830_diverges)
    have q: "detectEventConflicts (Suc k)
               (clientCall\<lparr> startDate := 28800000, endDate := 32400000 \<rparr>) [standup] None
             = Some \<lparr> hasConflict = False, conflictingEvents = [], conflictMessage = [],
                      suggestedTimes = [] \<rparr>"
      by (rule detectEventConflicts_no_conflict)
        (simp add: isConflicting_def areIntervalsOverlapping_def clientCall_def standup_def)
    have d: "differenceInMinutes (endDate clientCall) (startDate clientCall) = 60"
      "setHours (startOfDay (startDate clientCall)) 8 = 28800000"
      "setHours (startOfDay (startDate clientCall)) 18 = 64800000"
      by (simp_all add: clientCall_def differenceInMinutes_def setHours_def startOfDay_def)
    show ?thesis
      unfolding Suc
      apply (subst generateAlternativeTimeSlots.simps)
      apply (simp only: Let_def d)
      apply (subst slotScan.simps)
      apply (simp add: addMinutes_def q)
      apply (subst slotScan.simps)
      apply (simp add: addMinutes_def p)
      done
  qed
  have "detectEventConflicts depth clientCall [standup] None = None"
  proof (cases depth)
    case 0
    then show ?thesis by (simp add: detectEventConflicts.simps)
  next
    case (Suc k)
    have "isConflicting clientCall None standup"
      by (simp add: isConflicting_def areIntervalsOverlapping_def clientCall_def standup_def)
    then show ?thesis
      unfolding Suc by (simp add: detectEventConflicts.simps Let_def g)
  qed
  with g show ?thesis by simp
qed

section \<open>Properties of the free-time finder\<close>

subsection \<open>C7: the longest free block\<close>

text \<open>The reduction keeps the first slot of the greatest duration: every slot before it
  is strictly shorter and no slot after it is longer.\<close>

lemma fold_longer_Some:
  "\<exists>b pre post. fold longer xs (Some a) = Some b \<and> a # xs = pre @ b # post
      \<and> (\<forall>s \<in> set pre. duration s < duration b)
      \<and> (\<forall>s \<in> set post. duration s \<le> duration b)"
proof (induction xs arbitrary: a)
  case Nil
  have "[a] = [] @ a # []" by simp
  then show ?case by force
next
  case (Cons x xs)
  show ?case
  proof (cases "duration x > duration a")
    case True
    from Cons.IH[of x] obtain b pre post where
      f: "fold longer xs (Some x) = Some b" and e: "x # xs = pre @ b # post"
      and p: "\<forall>s \<in> set pre. duration s < duration b"
      and q: "\<forall>s \<in> set post. duration s \<le> duration b"
      by blast
    have "x \<in> set (pre @ b # post)" using e by (metis list.set_intros(1))
    then have "duration x \<le> duration b" using p q by auto
    then have "\<forall>s \<in> set (a # pre). duration s < duration b" using True p by auto
    moreover have "a # x # xs = (a # pre) @ b # post" using e by simp
    moreover have "fold longer (x # xs) (Some a) = Some b" using True f by (simp add: longer_def)
    ultimately show ?thesis using q by blast
  next
    case False
    from Cons.IH[of a] obtain b pre post where
      f: "fold longer xs (Some a) = Some b" and e: "a # xs = pre @ b # post"
      and p: "\<forall>s \<in> set pre. duration s < duration b"
      and q: "\<forall>s \<in> set post. duration s \<le> duration b"
      by blast
    have f': "fold longer (x # xs) (Some a) = Some b" using False f by (simp add: longer_def)
    show ?thesis
    proof (cases pre)
      case Nil
      then have "a # x # xs = [] @ b # (x # post)" "\<forall>s \<in> set (x # post). duration s \<le> duration b"
        using e q False by auto
      then show ?thesis using f' by (metis empty_iff list.set(1))
    next
      case (Cons a' pre')
      then have "a # x # xs = (a # x # pre') @ b # post" "\<forall>s \<in> set (a # x # pre'). duration s < duration b"
        using e p False by auto
      then show ?thesis using f' q by blast
    qed
  qed
qed

lemma fold_longer_None:
  "fold longer xs None = (case xs of [] \<Rightarrow> None | a # ys \<Rightarrow> fold longer ys (Some a))"
  by (cases xs) (simp_all add: longer_def)

lemma gapStep_starts:
  assumes "sorted (map slotStart (snd st))" and "\<forall>s \<in> set (snd st). slotStart s \<le> fst st"
  shows "sorted (map slotStart (snd (gapStep bs be m e st)))
         \<and> (\<forall>s \<in> set (snd (gapStep bs be m e st)). slotStart s \<le> fst (gapStep bs be m e st))"
  using assms by (auto simp: gapStep_def Let_def gapSlot_def sorted_append)

lemma fold_gapStep_starts:
  assumes "sorted (map slotStart (snd st))" and "\<forall>s \<in> set (snd st). slotStart s \<le> fst st"
  shows "sorted (map slotStart (snd (fold (gapStep bs be m) es st)))
         \<and> (\<forall>s \<in> set (snd (fold (gapStep bs be m) es st)).
               slotStart s \<le> fst (fold (gapStep bs be m) es st))"
  using assms
proof (induction es arbitrary: st)
  case Nil
  then show ?case by simp
next
  case (Cons e es)
  from gapStep_starts[OF Cons.prems, of bs be m e]
  show ?case using Cons.IH[of "gapStep bs be m e st"] by simp
qed

lemma freeSlotsOf_chronological:
  "sorted (map slotStart (freeSlotsOf events targetDate minDuration))"
  using fold_gapStep_starts[of "(setHours (startOfDay targetDate) 8, [])" "setHours (startOfDay targetDate) 8"
      "setHours (startOfDay targetDate) 18" minDuration "dayEventsOf events targetDate"]
  by (auto simp: freeSlotsOf_def Let_def sorted_append gapSlot_def)

text \<open>
  Claim C7. For every event list, target day and minimum duration, \<^verbatim>\<open>longestFreeBlock\<close>
  is null when \<^verbatim>\<open>allFreeSlots\<close> is empty and otherwise a slot of \<^verbatim>\<open>allFreeSlots\<close> of
  maximum duration; among the slots of that duration none starts before it, the slots
  being listed in the order of their start times.
\<close>

theorem longestFreeBlock_first_maximum:
  "(allFreeSlots (findFreeTimeSlots events targetDate minDuration) = [] \<longrightarrow>
      longestFreeBlock (findFreeTimeSlots events targetDate minDuration) = None)
   \<and> (allFreeSlots (findFreeTimeSlots events targetDate minDuration) \<noteq> [] \<longrightarrow>
        (\<exists>best. longestFreeBlock (findFreeTimeSlots events targetDate minDuration) = Some best
           \<and> best \<in> set (allFreeSlots (findFreeTimeSlots events targetDate minDuration))
           \<and> (\<forall>slot \<in> set (allFreeSlots (findFreeTimeSlots events targetDate minDuration)).
                 duration slot \<le> duration best
                 \<and> (duration slot = duration best \<longrightarrow> slotStart best \<le> slotStart slot))))
   \<and> sorted (map slotStart (allFreeSlots (findFreeTimeSlots events targetDate minDuration)))"
proof -
  define slots where "slots = freeSlotsOf events targetDate minDuration"
  have chron: "sorted (map slotStart slots)"
    unfolding slots_def by (rule freeSlotsOf_chronological)
  have r: "allFreeSlots (findFreeTimeSlots events targetDate minDuration) = slots"
    "longestFreeBlock (findFreeTimeSlots events targetDate minDuration) = fold longer slots None"
    by (simp_all add: findFreeTimeSlots_def Let_def slots_def)
  have "\<exists>best. fold longer slots None = Some best \<and> best \<in> set slots
           \<and> (\<forall>slot \<in> set slots. duration slot \<le> duration best
                 \<and> (duration slot = duration best \<longrightarrow> slotStart best \<le> slotStart slot))"
    if ne: "slots \<noteq> []"
  proof -
    from ne obtain a ys where s: "slots = a # ys" by (cases slots) auto
    from fold_longer_Some[of ys a] obtain b pre post where
      f: "fold longer ys (Some a) = Some b" and e: "a # ys = pre @ b # post"
      and p: "\<forall>s \<in> set pre. duration s < duration b"
      and q: "\<forall>s \<in> set post. duration s \<le> duration b"
      by blast
    have srt: "sorted (map slotStart (pre @ b # post))" using chron s e by simp
    have "fold longer slots None = Some b" using f s by (simp add: longer_def)
    moreover have "b \<in> set slots" using s e by simp
    moreover have "duration t \<le> duration b \<and> (duration t = duration b \<longrightarrow> slotStart b \<le> slotStart t)"
      if "t \<in> set slots" for t
    proof -
      from that s e have "t \<in> set pre \<or> t = b \<or> t \<in> set post" by auto
      then show ?thesis using p q srt by (auto simp: sorted_append)
    qed
    ultimately show ?thesis by blast
  qed
  then show ?thesis unfolding r using chron by (auto simp: fold_longer_None)
qed

text \<open>Witness for C7: with the midday block the morning and the afternoon are both free
  for 240 minutes, and the morning is the longest free block.\<close>

theorem longestFreeBlock_first_maximum_witness:
  "allFreeSlots (findFreeTimeSlots [midday] 0 60) =
     [\<lparr> slotStart = 28800000, slotEnd = 43200000, duration = 240, slotType = Morning \<rparr>,
      \<lparr> slotStart = 50400000, slotEnd = 64800000, duration = 240, slotType = Afternoon \<rparr>]
   \<and> longestFreeBlock (findFreeTimeSlots [midday] 0 60) =
       Some \<lparr> slotStart = 28800000, slotEnd = 43200000, duration = 240, slotType = Morning \<rparr>
   \<and> allFreeSlots (findFreeTimeSlots [conference] 0 700) = []
   \<and> longestFreeBlock (findFreeTimeSlots [conference] 0 700) = None"
proof -
  have e: "allFreeSlots (findFreeTimeSlots [midday] 0 60) =
     [\<lparr> slotStart = 28800000, slotEnd = 43200000, duration = 240, slotType = Morning \<rparr>,
      \<lparr> slotStart = 50400000, slotEnd = 64800000, duration = 240, slotType = Afternoon \<rparr>]"
    "longestFreeBlock (findFreeTimeSlots [midday] 0 60) =
       Some \<lparr> slotStart = 28800000, slotEnd = 43200000, duration = 240, slotType = Morning \<rparr>"
    "allFreeSlots (findFreeTimeSlots [conference] 0 700) = []"
    by code_simp+
  show ?thesis
    using longestFreeBlock_first_maximum[of "[midday]" 0 60]
      longestFreeBlock_first_maximum[of "[conference]" 0 700] e
    by simp
qed

subsection \<open>C6: the weekly pattern\<close>

lemma dayScan_eq:
  "dayScan events sh eh days a s =
     (a + length (freeDays events days sh eh),
      case s of
        Some x \<Rightarrow> Some x
      | None \<Rightarrow> (case freeDays events days sh eh of [] \<Rightarrow> None | d # _ \<Rightarrow> Some (probeSlot d sh eh)))"
  by (induction days arbitrary: a s) (auto simp: freeDays_def split: option.splits)

lemma probeScan_eq:
  "probeScan events days probes acc = acc @ concat (map (patternOfProbe events days) probes)"
proof (induction probes arbitrary: acc)
  case Nil
  show ?case by simp
next
  case (Cons p probes)
  obtain sh eh label where p: "p = (sh, eh, label)" by (cases p) auto
  show ?case
    unfolding p
    by (cases "freeDays events days sh eh")
      (simp_all add: Cons.IH dayScan_eq patternOfProbe_def Let_def)
qed

lemma startOfDay_multiple: "startOfDay (startOfDay d + k * msPerDay) = startOfDay d + k * msPerDay"
  by (simp add: startOfDay_def)

lemma startOfWeek_midnight: "startOfDay (startOfWeek r) = startOfWeek r"
proof -
  define k where "k = - ((if getDay r < 1 then 7 else 0) + getDay r - 1)"
  have "startOfWeek r = startOfDay r + k * msPerDay"
    by (simp add: startOfWeek_def Let_def k_def)
  then show ?thesis by (simp only: startOfDay_multiple)
qed

lemma getDay_range: "0 \<le> getDay d \<and> getDay d < 7"
  by (simp add: getDay_def)

lemma week_span: "endOfWeek r - startOfWeek r = 7 * msPerDay - 1"
  by (simp add: endOfWeek_def startOfWeek_def Let_def)

lemma weekDays_eq: "eachDayOfInterval (startOfWeek r) (endOfWeek r) = weekOf r"
proof -
  have "(endOfWeek r - startOfWeek r) div msPerDay = 6"
    unfolding week_span by simp
  moreover have "[0..6::int] = [0, 1, 2, 3, 4, 5, 6]" by (simp add: upto_rec1)
  ultimately show ?thesis
    by (simp add: eachDayOfInterval_def startOfWeek_midnight weekOf_def)
qed

lemma startOfWeek_monday: "getDay (startOfWeek r) = 1"
proof -
  define q where "q = r div msPerDay"
  define g where "g = (q + 4) mod 7"
  have sd: "startOfDay r = q * msPerDay"
    unfolding startOfDay_def q_def by (simp add: minus_mod_eq_div_mult)
  have gd: "getDay r = g" by (simp add: getDay_def q_def g_def)
  have grange: "0 \<le> g" "g < 7" by (simp_all add: g_def)
  have split: "q + 4 = 7 * ((q + 4) div 7) + g" by (simp add: g_def)
  define k where "k = (q + 4) div 7"
  have qk: "q = 7 * k + g - 4" using split by (simp add: k_def)
  have "startOfWeek r = (q - ((if g < 1 then 7 else 0) + g - 1)) * msPerDay"
    by (simp add: startOfWeek_def Let_def sd gd algebra_simps)
  then have "getDay (startOfWeek r) = (q - ((if g < 1 then 7 else 0) + g - 1) + 4) mod 7"
    by (simp add: getDay_def)
  also have "q - ((if g < 1 then 7 else 0) + g - 1) + 4 = 7 * (k - (if g < 1 then 1 else 0)) + 1"
    using qk by simp
  finally have "getDay (startOfWeek r) = (7 * (k - (if g < 1 then 1 else 0)) + 1) mod 7" .
  moreover have "(7 * m + 1) mod 7 = 1" for m :: int by simp
  ultimately show ?thesis by (simp only:)
qed

lemma startOfWeek_contains: "startOfWeek r \<le> r \<and> r < startOfWeek r + 7 * msPerDay"
proof -
  have "0 \<le> r mod msPerDay" "r mod msPerDay < msPerDay" by simp_all
  moreover have "0 \<le> getDay r" "getDay r < 7" using getDay_range by simp_all
  ultimately show ?thesis
    by (auto simp: startOfWeek_def Let_def startOfDay_def)
qed

text \<open>
  Claim C6. For every event list and reference date, \<^verbatim>\<open>findRecurringWeeklyPattern\<close> emits
  a slot for one of the six hourly probes exactly when the probe is conflict-free on at
  least 4 of the 7 days of the week, Monday to Sunday, that contains the reference date;
  the slot lies on the earliest conflict-free day of that week, and the slots follow
  the order of the probe table.
\<close>

theorem findRecurringWeeklyPattern_refines_spec:
  "findRecurringWeeklyPattern events referenceDate = weeklyPatternSpec events referenceDate
   \<and> getDay (startOfWeek referenceDate) = 1
   \<and> startOfDay (startOfWeek referenceDate) = startOfWeek referenceDate
   \<and> startOfWeek referenceDate \<le> referenceDate
   \<and> referenceDate < startOfWeek referenceDate + 7 * msPerDay"
  using startOfWeek_contains[of referenceDate]
  by (simp add: findRecurringWeeklyPattern_def Let_def weekDays_eq probeScan_eq
      weeklyPatternSpec_def startOfWeek_monday startOfWeek_midnight)

text \<open>Witness for C6: the conference blocks Monday to Wednesday and the morning of
  Thursday, so the morning probes are free on three days only and the afternoon probes
  on four, first on Thursday (day 0).\<close>

theorem findRecurringWeeklyPattern_refines_spec_witness:
  "findRecurringWeeklyPattern [conference] 0 =
     [\<lparr> slotStart = 50400000, slotEnd = 54000000, duration = 60, slotType = Afternoon \<rparr>,
      \<lparr> slotStart = 54000000, slotEnd = 57600000, duration = 60, slotType = Afternoon \<rparr>,
      \<lparr> slotStart = 57600000, slotEnd = 61200000, duration = 60, slotType = Afternoon \<rparr>]
   \<and> weeklyPatternSpec [conference] 0 = findRecurringWeeklyPattern [conference] 0
   \<and> startOfWeek 0 = - 259200000"
proof -
  have "findRecurringWeeklyPattern [conference] 0 =
     [\<lparr> slotStart = 50400000, slotEnd = 54000000, duration = 60, slotType = Afternoon \<rparr>,
      \<lparr> slotStart = 54000000, slotEnd = 57600000, duration = 60, slotType = Afternoon \<rparr>,
      \<lparr> slotStart = 57600000, slotEnd = 61200000, duration = 60, slotType = Afternoon \<rparr>]"
    "startOfWeek 0 = - 259200000"
    by code_simp+
  then show ?thesis
    using findRecurringWeeklyPattern_refines_spec[of "[conference]" 0] by simp
qed

subsection \<open>C1: the free slots and the business window\<close>

text \<open>
  Counterexample for claim C1 as stated. With the all-hands meeting from 08:30 to 18:00
  and the default minimum duration of 60 minutes, the half hour from 08:00 is too short
  to be a slot: no slot is returned, and the instant 08:00 of the window lies in no slot
  and in no clamped event interval.
\<close>

theorem freeSlots_short_gap_uncovered_counterexample:
  "allFreeSlots (findFreeTimeSlots [allHands] 0 60) = []
   \<and> dayEventsOf [allHands] 0 = [allHands]
   \<and> businessStartOf 0 \<le> 28800000 \<and> 28800000 < businessEndOf 0
   \<and> coverCount [allHands] 0 60 28800000 = 0"
  by code_simp

text \<open>An event that starts after the end of the window is not clamped at its start:
  the slot before the dinner runs from 08:00 to 19:00, past 18:00.\<close>

lemma late_event_slot_leaves_window:
  "allFreeSlots (findFreeTimeSlots [dinner] 0 60) =
     [\<lparr> slotStart = 28800000, slotEnd = 68400000, duration = 660, slotType = Morning \<rparr>]
   \<and> businessEndOf 0 = 64800000"
  by code_simp

lemma window_order: "businessStartOf d < businessEndOf d"
  by (simp add: businessStartOf_def businessEndOf_def setHours_def)

text \<open>One round of the loop in terms of the clamped interval of the event.\<close>

lemma gapStep_fst:
  "fst (gapStep (businessStartOf d) (businessEndOf d) m e st) = max (fst st) (clampedEnd d e)"
  by (auto simp: gapStep_def Let_def clampedEnd_def)

lemma gapStep_snd:
  "snd (gapStep (businessStartOf d) (businessEndOf d) m e st) =
     (if fst st < clampedStart d e \<and> m \<le> differenceInMinutes (clampedStart d e) (fst st)
      then snd st @ [gapSlot (fst st) (clampedStart d e)] else snd st)"
  by (auto simp: gapStep_def Let_def clampedStart_def)

lemma differenceInMinutes_nonneg: "a \<le> b \<Longrightarrow> 0 \<le> differenceInMinutes b a"
  by (simp add: differenceInMinutes_def Let_def sgn_if pos_imp_zdiv_nonneg_iff)

lemma loopState_snoc:
  "loopState d m (es @ [e]) = gapStep (businessStartOf d) (businessEndOf d) m e (loopState d m es)"
  by simp

lemma cur_bounds:
  "businessStartOf d \<le> fst (loopState d m es) \<and> fst (loopState d m es) \<le> businessEndOf d"
proof (induction es rule: rev_induct)
  case Nil
  show ?case using window_order[of d] by simp
next
  case (snoc e es)
  then show ?case
    unfolding loopState_snoc gapStep_fst by (auto simp: clampedEnd_def)
qed

lemma cur_after_events:
  "e \<in> set es \<Longrightarrow> clampedEnd d e \<le> fst (loopState d m es)"
proof (induction es rule: rev_induct)
  case Nil
  then show ?case by simp
next
  case (snoc x es)
  then show ?case
    unfolding loopState_snoc gapStep_fst by auto
qed

lemma slot_bounds:
  assumes "list_all (walkable d) es" and "s \<in> set (snd (loopState d m es))"
  shows "businessStartOf d \<le> slotStart s \<and> slotStart s < slotEnd s
         \<and> slotEnd s \<le> fst (loopState d m es)"
  using assms
proof (induction es arbitrary: s rule: rev_induct)
  case Nil
  then show ?case by simp
next
  case (snoc e es)
  have all: "list_all (walkable d) es" and "walkable d e"
    using snoc.prems(1) by simp_all
  then have w: "startDate e \<le> endDate e" "startDate e \<le> businessEndOf d"
    by (simp_all add: walkable_def)
  note cb = cur_bounds[of d m es]
  show ?case
  proof (cases "s \<in> set (snd (loopState d m es))")
    case True
    from snoc.IH[OF all True] show ?thesis
      unfolding loopState_snoc gapStep_fst by auto
  next
    case False
    with snoc.prems(2) have s: "s = gapSlot (fst (loopState d m es)) (clampedStart d e)"
      and lt: "fst (loopState d m es) < clampedStart d e"
      unfolding loopState_snoc gapStep_snd by (auto split: if_splits)
    from lt cb have "clampedStart d e = startDate e" by (auto simp: clampedStart_def)
    then have "clampedStart d e \<le> clampedEnd d e" using w by (simp add: clampedEnd_def)
    then show ?thesis
      using lt cb unfolding loopState_snoc gapStep_fst s by (simp add: gapSlot_def)
  qed
qed


lemma slots_chained:
  assumes "list_all (walkable d) es"
  shows "sorted_wrt (\<lambda>a b. slotEnd a \<le> slotStart b) (snd (loopState d m es))"
  using assms
proof (induction es rule: rev_induct)
  case Nil
  show ?case by simp
next
  case (snoc e es)
  have all: "list_all (walkable d) es"
    using snoc.prems by simp
  show ?case
    unfolding loopState_snoc gapStep_snd
    using snoc.IH[OF all] slot_bounds[OF all, of _ m]
    by (auto simp: sorted_wrt_append gapSlot_def)
qed

lemma slot_before_event:
  assumes "s \<in> set (snd (loopState d m es))"
  shows "\<exists>x \<in> set es. slotEnd s \<le> clampedStart d x"
  using assms
proof (induction es rule: rev_induct)
  case Nil
  then show ?case by simp
next
  case (snoc e es)
  then show ?case
    unfolding loopState_snoc gapStep_snd
    by (auto simp: gapSlot_def split: if_splits)
qed

lemma slot_event_disjoint:
  assumes "sorted (map startDate es)" and "s \<in> set (snd (loopState d m es))" and "x \<in> set es"
  shows "slotEnd s \<le> clampedStart d x \<or> clampedEnd d x \<le> slotStart s"
  using assms
proof (induction es arbitrary: s x rule: rev_induct)
  case Nil
  then show ?case by simp
next
  case (snoc e es)
  have srt: "sorted (map startDate es)" and le: "\<forall>y \<in> set es. startDate y \<le> startDate e"
    using snoc.prems(1) by (auto simp: sorted_append)
  show ?case
  proof (cases "s \<in> set (snd (loopState d m es))")
    case old: True
    show ?thesis
    proof (cases "x \<in> set es")
      case True
      from snoc.IH[OF srt old True] show ?thesis .
    next
      case False
      then have x: "x = e" using snoc.prems(3) by simp
      from slot_before_event[OF old] obtain y where "y \<in> set es" "slotEnd s \<le> clampedStart d y"
        by blast
      moreover from this le have "clampedStart d y \<le> clampedStart d e"
        by (auto simp: clampedStart_def)
      ultimately show ?thesis unfolding x by simp
    qed
  next
    case False
    with snoc.prems(2) have s: "s = gapSlot (fst (loopState d m es)) (clampedStart d e)"
      unfolding loopState_snoc gapStep_snd by (auto split: if_splits)
    show ?thesis
    proof (cases "x \<in> set es")
      case True
      from cur_after_events[OF True, of d m] show ?thesis
        unfolding s by (simp add: gapSlot_def)
    next
      case False
      then have "x = e" using snoc.prems(3) by simp
      then show ?thesis unfolding s by (simp add: gapSlot_def)
    qed
  qed
qed

lemma gaps_cover:
  assumes "businessStartOf d \<le> t" and "t < fst (loopState d 0 es)"
  shows "(\<exists>s \<in> set (snd (loopState d 0 es)). inSlot t s)
         \<or> (\<exists>e \<in> set es. inClampedEvent d t e)"
  using assms
proof (induction es rule: rev_induct)
  case Nil
  then show ?case by simp
next
  case (snoc e es)
  let ?cur = "fst (loopState d 0 es)"
  show ?case
  proof (cases "t < ?cur")
    case True
    from snoc.IH[OF snoc.prems(1) True] show ?thesis
      unfolding loopState_snoc gapStep_snd by auto
  next
    case False
    with snoc.prems(2) have t: "?cur \<le> t" "t < clampedEnd d e"
      unfolding loopState_snoc gapStep_fst by auto
    show ?thesis
    proof (cases "t < clampedStart d e")
      case True
      with t have lt: "?cur < clampedStart d e" by simp
      then have "0 \<le> differenceInMinutes (clampedStart d e) ?cur"
        by (intro differenceInMinutes_nonneg) simp
      with lt have "gapSlot ?cur (clampedStart d e) \<in> set (snd (loopState d 0 (es @ [e])))"
        unfolding loopState_snoc gapStep_snd by simp
      moreover have "inSlot t (gapSlot ?cur (clampedStart d e))"
        using t True by (simp add: inSlot_def gapSlot_def)
      ultimately show ?thesis by blast
    next
      case False
      with t have "inClampedEvent d t e" by (simp add: inClampedEvent_def)
      then show ?thesis by auto
    qed
  qed
qed

lemma loopState_minDuration:
  "fst (loopState d m es) = fst (loopState d 0 es)
   \<and> snd (loopState d m es) = filter (\<lambda>s. m \<le> duration s) (snd (loopState d 0 es))"
proof (induction es rule: rev_induct)
  case Nil
  show ?case by simp
next
  case (snoc e es)
  have "0 \<le> differenceInMinutes (clampedStart d e) (fst (loopState d 0 es))"
    if "fst (loopState d 0 es) < clampedStart d e"
    using that by (intro differenceInMinutes_nonneg) simp
  then show ?case
    using snoc.IH unfolding loopState_snoc gapStep_fst gapStep_snd
    by (auto simp: gapSlot_def)
qed

lemma freeSlotsOf_loopState:
  "freeSlotsOf events d m =
     (if fst (loopState d m (dayEventsOf events d)) < businessEndOf d
         \<and> m \<le> differenceInMinutes (businessEndOf d) (fst (loopState d m (dayEventsOf events d)))
      then snd (loopState d m (dayEventsOf events d))
             @ [gapSlot (fst (loopState d m (dayEventsOf events d))) (businessEndOf d)]
      else snd (loopState d m (dayEventsOf events d)))"
  by (simp add: freeSlotsOf_def Let_def businessStartOf_def businessEndOf_def)

lemma dayEventsOf_sorted: "sorted (map startDate (dayEventsOf events d))"
  by (simp add: dayEventsOf_def)

lemma freeSlotsOf_minDuration:
  "freeSlotsOf events d m = filter (\<lambda>s. m \<le> duration s) (freeSlotsOf events d 0)"
proof -
  let ?es = "dayEventsOf events d"
  have "0 \<le> differenceInMinutes (businessEndOf d) (fst (loopState d 0 ?es))"
    using cur_bounds[of d 0 ?es] by (intro differenceInMinutes_nonneg) simp
  then show ?thesis
    unfolding freeSlotsOf_loopState
    using loopState_minDuration[of d m ?es]
    by (auto simp: gapSlot_def)
qed

lemma freeSlotsOf_cover:
  assumes "businessStartOf d \<le> t" and "t < businessEndOf d"
  shows "(\<exists>s \<in> set (freeSlotsOf events d 0). inSlot t s)
         \<or> (\<exists>e \<in> set (dayEventsOf events d). inClampedEvent d t e)"
proof (cases "t < fst (loopState d 0 (dayEventsOf events d))")
  case True
  from gaps_cover[OF assms(1) True] show ?thesis
    unfolding freeSlotsOf_loopState by auto
next
  case False
  let ?cur = "fst (loopState d 0 (dayEventsOf events d))"
  from False assms(2) have lt: "?cur < businessEndOf d" by simp
  then have "0 \<le> differenceInMinutes (businessEndOf d) ?cur"
    by (intro differenceInMinutes_nonneg) simp
  with lt have "gapSlot ?cur (businessEndOf d) \<in> set (freeSlotsOf events d 0)"
    unfolding freeSlotsOf_loopState by simp
  moreover have "inSlot t (gapSlot ?cur (businessEndOf d))"
    using False assms(2) by (simp add: inSlot_def gapSlot_def)
  ultimately show ?thesis by blast
qed

lemma freeSlotsOf_bounds:
  assumes "list_all (walkable d) (dayEventsOf events d)" and "s \<in> set (freeSlotsOf events d m)"
  shows "businessStartOf d \<le> slotStart s \<and> slotStart s < slotEnd s
         \<and> slotEnd s \<le> businessEndOf d"
proof (cases "s \<in> set (snd (loopState d m (dayEventsOf events d)))")
  case True
  from slot_bounds[OF assms(1) True] cur_bounds[of d m "dayEventsOf events d"]
  show ?thesis by simp
next
  case False
  with assms(2) have "s = gapSlot (fst (loopState d m (dayEventsOf events d))) (businessEndOf d)"
    and "fst (loopState d m (dayEventsOf events d)) < businessEndOf d"
    unfolding freeSlotsOf_loopState by (auto split: if_splits)
  then show ?thesis
    using cur_bounds[of d m "dayEventsOf events d"] by (simp add: gapSlot_def)
qed

lemma freeSlotsOf_chained:
  assumes "list_all (walkable d) (dayEventsOf events d)"
  shows "sorted_wrt (\<lambda>a b. slotEnd a \<le> slotStart b) (freeSlotsOf events d m)"
  unfolding freeSlotsOf_loopState
  using slots_chained[OF assms, of m] slot_bounds[OF assms, of _ m]
  by (auto simp: sorted_wrt_append gapSlot_def)

lemma freeSlotsOf_event_disjoint:
  assumes "s \<in> set (freeSlotsOf events d m)" and "e \<in> set (dayEventsOf events d)"
  shows "slotEnd s \<le> clampedStart d e \<or> clampedEnd d e \<le> slotStart s"
proof (cases "s \<in> set (snd (loopState d m (dayEventsOf events d)))")
  case True
  from slot_event_disjoint[OF dayEventsOf_sorted True assms(2)] show ?thesis .
next
  case False
  with assms(1) have "s = gapSlot (fst (loopState d m (dayEventsOf events d))) (businessEndOf d)"
    unfolding freeSlotsOf_loopState by (auto split: if_splits)
  then show ?thesis
    using cur_after_events[OF assms(2), of d m] by (simp add: gapSlot_def)
qed

text \<open>
  Claim C1, amended. For every event list, target day and minimum duration: the slots of
  \<^verbatim>\<open>allFreeSlots\<close> are the gaps of the walk (the slots found with minimum duration 0) that
  last at least the minimum duration in whole minutes; the gaps and the
  business-hours-clamped intervals of the events of that day cover every instant of the
  window from 08:00 to 18:00; no slot overlaps a clamped event interval; and when no
  event of that day ends before it starts or starts after 18:00, the slots are pairwise
  non-overlapping, in chronological order, and each lies within the window.
\<close>

theorem freeSlots_tile_window:
  "allFreeSlots (findFreeTimeSlots events targetDate minDuration)
     = filter (\<lambda>slot. minDuration \<le> duration slot)
         (allFreeSlots (findFreeTimeSlots events targetDate 0))
   \<and> (\<forall>t. businessStartOf targetDate \<le> t \<and> t < businessEndOf targetDate \<longrightarrow>
          (\<exists>slot \<in> set (allFreeSlots (findFreeTimeSlots events targetDate 0)). inSlot t slot)
          \<or> (\<exists>event \<in> set (dayEventsOf events targetDate). inClampedEvent targetDate t event))
   \<and> (\<forall>slot \<in> set (allFreeSlots (findFreeTimeSlots events targetDate minDuration)).
        \<forall>event \<in> set (dayEventsOf events targetDate).
          slotEnd slot \<le> clampedStart targetDate event
          \<or> clampedEnd targetDate event \<le> slotStart slot)
   \<and> (list_all (walkable targetDate) (dayEventsOf events targetDate) \<longrightarrow>
        sorted_wrt (\<lambda>a b. slotEnd a \<le> slotStart b)
          (allFreeSlots (findFreeTimeSlots events targetDate minDuration))
        \<and> (\<forall>slot \<in> set (allFreeSlots (findFreeTimeSlots events targetDate minDuration)).
              businessStartOf targetDate \<le> slotStart slot \<and> slotStart slot < slotEnd slot
              \<and> slotEnd slot \<le> businessEndOf targetDate))"
proof -
  have a: "allFreeSlots (findFreeTimeSlots events targetDate m) = freeSlotsOf events targetDate m"
    for m by (simp add: findFreeTimeSlots_def Let_def)
  show ?thesis
    unfolding a
    using freeSlotsOf_minDuration[of events targetDate minDuration]
      freeSlotsOf_cover[of targetDate _ events]
      freeSlotsOf_event_disjoint[of _ events targetDate minDuration]
      freeSlotsOf_chained[of targetDate events minDuration]
      freeSlotsOf_bounds[of targetDate events _ minDuration]
    by blast
qed

text \<open>Witness for C1: around the midday block the morning and the afternoon are the two
  slots, one before and one after the block, inside the window from 08:00 to 18:00.\<close>

theorem freeSlots_tile_window_witness:
  "list_all (walkable 0) (dayEventsOf [midday] 0)
   \<and> allFreeSlots (findFreeTimeSlots [midday] 0 60) =
       [\<lparr> slotStart = 28800000, slotEnd = 43200000, duration = 240, slotType = Morning \<rparr>,
        \<lparr> slotStart = 50400000, slotEnd = 64800000, duration = 240, slotType = Afternoon \<rparr>]
   \<and> allFreeSlots (findFreeTimeSlots [midday] 0 0)
       = allFreeSlots (findFreeTimeSlots [midday] 0 60)
   \<and> businessStartOf 0 = 28800000 \<and> businessEndOf 0 = 64800000
   \<and> clampedStart 0 midday = 43200000 \<and> clampedEnd 0 midday = 50400000"
proof -
  have e: "list_all (walkable 0) (dayEventsOf [midday] 0)"
    "allFreeSlots (findFreeTimeSlots [midday] 0 60) =
       [\<lparr> slotStart = 28800000, slotEnd = 43200000, duration = 240, slotType = Morning \<rparr>,
        \<lparr> slotStart = 50400000, slotEnd = 64800000, duration = 240, slotType = Afternoon \<rparr>]"
    "allFreeSlots (findFreeTimeSlots [midday] 0 0)
       = allFreeSlots (findFreeTimeSlots [midday] 0 60)"
    "businessStartOf 0 = 28800000" "businessEndOf 0 = 64800000"
    "clampedStart 0 midday = 43200000" "clampedEnd 0 midday = 50400000"
    by code_simp+
  show ?thesis
    using freeSlots_tile_window[of "[midday]" 0 60] e by blast
qed

subsection \<open>C8: the order of the input events\<close>

text \<open>A fold over two lists sorted by a key that are permutations of each other gives the
  same result when the steps of elements with equal keys commute.\<close>

lemma fold_move_front:
  assumes comm: "\<And>x y s. P x \<Longrightarrow> P y \<Longrightarrow> key x = key y \<Longrightarrow> I s \<Longrightarrow> f x (f y s) = f y (f x s)"
    and inv: "\<And>x s. I s \<Longrightarrow> I (f x s)"
    and "\<forall>y \<in> set ys. key y = key x \<and> P y" and "P x" and "I s"
  shows "fold f (ys @ [x]) s = fold f (x # ys) s"
  using assms(3-)
proof (induction ys arbitrary: s)
  case Nil
  show ?case by simp
next
  case (Cons y ys)
  have "fold f ((y # ys) @ [x]) s = fold f (ys @ [x]) (f y s)" by simp
  also have "\<dots> = fold f (x # ys) (f y s)"
    using Cons.prems by (intro Cons.IH) (auto intro: inv)
  also have "\<dots> = fold f ys (f y (f x s))"
    using Cons.prems comm[of x y s] by simp
  finally show ?case by simp
qed

lemma fold_sorted_perm:
  assumes comm: "\<And>x y s. P x \<Longrightarrow> P y \<Longrightarrow> key x = key y \<Longrightarrow> I s \<Longrightarrow> f x (f y s) = f y (f x s)"
    and inv: "\<And>x s. I s \<Longrightarrow> I (f x s)"
    and "sorted (map key xs)" and "sorted (map key ys)" and "mset xs = mset ys"
    and "\<forall>x \<in> set xs. P x" and "I s"
  shows "fold f xs s = fold f (ys :: 'a list) (s :: 'b)"
  using assms(3-)
proof (induction xs arbitrary: ys s)
  case Nil
  then show ?case by simp
next
  case (Cons x xs)
  have "x \<in> set ys"
    using Cons.prems(3) by (metis list.set_intros(1) mset_eq_setD)
  then obtain ys1 ys2 where ys: "ys = ys1 @ x # ys2"
    by (auto dest: split_list)
  have m: "mset xs = mset (ys1 @ ys2)"
    using Cons.prems(3) unfolding ys by simp
  then have sub: "set ys1 \<subseteq> set xs"
    by (metis mset_eq_setD set_append sup_ge1)
  have keys: "\<forall>y \<in> set ys1. key y = key x \<and> P y"
  proof
    fix y assume y: "y \<in> set ys1"
    then have "key y \<le> key x"
      using Cons.prems(2) unfolding ys by (auto simp: sorted_append)
    moreover have "key x \<le> key y"
      using Cons.prems(1) y sub by auto
    ultimately show "key y = key x \<and> P y"
      using Cons.prems(4) y sub by auto
  qed
  have px: "P x" using Cons.prems(4) by simp
  have "fold f ys s = fold f ys2 (fold f (ys1 @ [x]) s)"
    unfolding ys by simp
  also have "fold f (ys1 @ [x]) s = fold f (x # ys1) s"
    by (rule fold_move_front[where P = P and key = key and I = I and f = f,
          OF comm inv keys px Cons.prems(5)])
  also have "fold f ys2 (fold f (x # ys1) s) = fold f (ys1 @ ys2) (f x s)"
    by simp
  also have "\<dots> = fold f xs (f x s)"
  proof (rule Cons.IH[symmetric])
    show "sorted (map key xs)" using Cons.prems(1) by simp
    show "sorted (map key (ys1 @ ys2))"
      using Cons.prems(2) unfolding ys by (auto simp: sorted_append)
    show "mset xs = mset (ys1 @ ys2)" by (rule m)
    show "\<forall>x \<in> set xs. P x" using Cons.prems(4) by simp
    show "I (f x s)" using Cons.prems(5) by (rule inv)
  qed
  finally show ?case by simp
qed

lemma gapStep_commute:
  assumes "startDate x \<le> endDate x" and "startDate y \<le> endDate y"
    and "startDate x = startDate y" and "businessStartOf d \<le> fst st"
  shows "gapStep (businessStartOf d) (businessEndOf d) m x
           (gapStep (businessStartOf d) (businessEndOf d) m y st)
         = gapStep (businessStartOf d) (businessEndOf d) m y
             (gapStep (businessStartOf d) (businessEndOf d) m x st)"
proof -
  have s: "clampedStart d x = clampedStart d y"
    using assms(3) by (simp add: clampedStart_def)
  have o: "businessStartOf d < businessEndOf d" by (rule window_order)
  have cases: "clampedStart d y \<le> fst st
      \<or> (clampedStart d y \<le> clampedEnd d x \<and> clampedStart d y \<le> clampedEnd d y)
      \<or> clampedEnd d x = clampedEnd d y"
    using assms o by (auto simp: clampedStart_def clampedEnd_def)
  show ?thesis
    apply (rule prod_eqI)
    subgoal by (simp add: gapStep_fst max.left_commute)
    subgoal using cases by (auto simp: gapStep_snd gapStep_fst s)
    done
qed

lemma gapStep_keeps_lower_bound:
  "businessStartOf d \<le> fst st \<Longrightarrow>
     businessStartOf d \<le> fst (gapStep (businessStartOf d) (businessEndOf d) m e st)"
  by (simp add: gapStep_fst)

lemma probeConflict_set:
  "set events = set events' \<Longrightarrow> probeConflict events a b = probeConflict events' a b"
  by (simp add: probeConflict_def list_ex_iff)

lemma findRecurringWeeklyPattern_set:
  assumes "set events = set events'"
  shows "findRecurringWeeklyPattern events r = findRecurringWeeklyPattern events' r"
proof -
  have "freeDays events days sh eh = freeDays events' days sh eh" for days sh eh
    unfolding freeDays_def using probeConflict_set[OF assms] by simp
  then have "patternOfProbe events days = patternOfProbe events' days" for days
    by (intro ext) (simp add: patternOfProbe_def)
  then show ?thesis
    by (simp add: findRecurringWeeklyPattern_def Let_def probeScan_eq)
qed

text \<open>The result does not depend on the order of the input as soon as no event that
  starts on the target day ends before it starts.\<close>

lemma findFreeTimeSlots_order_independent_day:
  assumes "mset events = mset events'"
    and "list_all endsAfterStart (dayEventsOf events targetDate)"
  shows "findFreeTimeSlots events targetDate minDuration
         = findFreeTimeSlots events' targetDate minDuration"
proof -
  let ?f = "gapStep (businessStartOf targetDate) (businessEndOf targetDate) minDuration"
  have ms: "mset (dayEventsOf events targetDate) = mset (dayEventsOf events' targetDate)"
    using assms(1) by (simp add: dayEventsOf_def)
  have v: "\<forall>x \<in> set (dayEventsOf events targetDate). endsAfterStart x"
    using assms(2) by (simp add: list_all_iff)
  have "loopState targetDate minDuration (dayEventsOf events targetDate)
        = loopState targetDate minDuration (dayEventsOf events' targetDate)"
  proof (rule fold_sorted_perm[where key = startDate and P = endsAfterStart
        and I = "\<lambda>st. businessStartOf targetDate \<le> fst st"])
    show "?f x (?f y s) = ?f y (?f x s)"
      if "endsAfterStart x" "endsAfterStart y" "startDate x = startDate y"
        "businessStartOf targetDate \<le> fst s" for x y s
      using that by (intro gapStep_commute) (simp_all add: endsAfterStart_def)
    show "businessStartOf targetDate \<le> fst (?f x s)"
      if "businessStartOf targetDate \<le> fst s" for x s
      using that by (rule gapStep_keeps_lower_bound)
  qed (use ms v in \<open>simp_all add: dayEventsOf_sorted\<close>)
  then have "freeSlotsOf events targetDate minDuration = freeSlotsOf events' targetDate minDuration"
    by (simp add: freeSlotsOf_loopState)
  moreover have "findRecurringWeeklyPattern events targetDate
                 = findRecurringWeeklyPattern events' targetDate"
    using assms(1) by (intro findRecurringWeeklyPattern_set) (rule mset_eq_setD)
  ultimately show ?thesis
    by (simp add: findFreeTimeSlots_def)
qed

text \<open>
  Claim C8. For every target day and every two lists of events, each event starting
  strictly before it ends as section 3 of the specification requires, that are
  permutations of each other, \<^verbatim>\<open>findFreeTimeSlots\<close> returns identical results: the same
  \<^verbatim>\<open>allFreeSlots\<close>, \<^verbatim>\<open>longestFreeBlock\<close>, \<^verbatim>\<open>nextAvailableHour\<close> and
  \<^verbatim>\<open>recurringWeeklyPattern\<close>.
\<close>

theorem findFreeTimeSlots_order_independent:
  assumes "mset events = mset events'"
    and "list_all eventInvariant events"
  shows "findFreeTimeSlots events targetDate minDuration
         = findFreeTimeSlots events' targetDate minDuration"
proof -
  have "set (dayEventsOf events targetDate) \<subseteq> set events"
    by (auto simp: dayEventsOf_def)
  moreover have "startDate x \<le> endDate x" if "x \<in> set events" for x
    using assms(2) that by (force simp: list_all_iff eventInvariant_def)
  ultimately have "list_all endsAfterStart (dayEventsOf events targetDate)"
    unfolding list_all_iff endsAfterStart_def by blast
  with assms(1) show ?thesis
    by (rule findFreeTimeSlots_order_independent_day)
qed

text \<open>Witness for C8: lunch and planning start together at 14:00.\<close>

theorem findFreeTimeSlots_order_independent_witness:
  "mset [lunch, review, planning] = mset [planning, lunch, review]
   \<and> list_all eventInvariant [lunch, review, planning]
   \<and> findFreeTimeSlots [lunch, review, planning] 0 60
       = findFreeTimeSlots [planning, lunch, review] 0 60
   \<and> map (\<lambda>slot. (slotStart slot, slotEnd slot))
        (allFreeSlots (findFreeTimeSlots [lunch, review, planning] 0 60))
     = [(28800000, 50400000), (55800000, 64800000)]"
proof -
  have m: "mset [lunch, review, planning] = mset [planning, lunch, review]"
    by simp
  have v: "list_all eventInvariant [lunch, review, planning]"
    by code_simp
  have s: "map (\<lambda>slot. (slotStart slot, slotEnd slot))
        (allFreeSlots (findFreeTimeSlots [lunch, review, planning] 0 60))
     = [(28800000, 50400000), (55800000, 64800000)]"
    by code_simp
  show ?thesis
    using findFreeTimeSlots_order_independent[OF m v, of 0 60] m v s by blast
qed

text \<open>The invariant is needed. Two records that end before they start and share their
  start time are kept by the stable sort in the order of the input, and the walk gives a
  different second slot for each order. The retreat comes first in both lists and fills
  the week, so that it alone decides every overlap test of the weekly pattern.\<close>

lemma reversed_records_order_matters:
  "mset [retreat, reversedA, reversedB] = mset [retreat, reversedB, reversedA]
   \<and> map (\<lambda>slot. (slotStart slot, slotEnd slot))
        (allFreeSlots (findFreeTimeSlots [retreat, reversedA, reversedB] 0 60))
     = [(28800000, 36000000), (28800000, 36000000), (32400000, 64800000)]
   \<and> map (\<lambda>slot. (slotStart slot, slotEnd slot))
        (allFreeSlots (findFreeTimeSlots [retreat, reversedB, reversedA] 0 60))
     = [(28800000, 36000000), (32400000, 36000000), (32400000, 64800000)]"
proof -
  have "mset [retreat, reversedA, reversedB] = mset [retreat, reversedB, reversedA]"
    by simp
  moreover have "map (\<lambda>slot. (slotStart slot, slotEnd slot))
        (allFreeSlots (findFreeTimeSlots [retreat, reversedA, reversedB] 0 60))
     = [(28800000, 36000000), (28800000, 36000000), (32400000, 64800000)]"
    by code_simp
  moreover have "map (\<lambda>slot. (slotStart slot, slotEnd slot))
        (allFreeSlots (findFreeTimeSlots [retreat, reversedB, reversedA] 0 60))
     = [(28800000, 36000000), (32400000, 36000000), (32400000, 64800000)]"
    by code_simp
  ultimately show ?thesis by blast
qed

section \<open>Properties of the event layout\<close>

subsection \<open>C3: widths and offsets\<close>

text \<open>
  Counterexample for claim C3 as stated. A single event has width 100, and each of the
  three mutually overlapping events has width 100 / 3: the numbers are percentages, not
  fractions of 1.
\<close>

theorem layout_not_fraction_counterexample:
  "map width (calculateEventLayout [standup]) = [100]
   \<and> length (buildColumns [standup]) = 1
   \<and> map width (calculateEventLayout [design, build, demo]) = [100 / 3, 100 / 3, 100 / 3]
   \<and> map left (calculateEventLayout [design, build, demo]) = [0, 100 / 3, 200 / 3]
   \<and> length (buildColumns [design, build, demo]) = 3"
  by code_simp

lemma in_layout:
  assumes "l \<in> set (calculateEventLayout events)"
  obtains i e where "i < length (buildColumns events)" "e \<in> set (buildColumns events ! i)"
    "l = layoutOf (length (buildColumns events)) i e"
  using assms
  by (auto simp: calculateEventLayout_def Let_def in_set_enumerate_eq)

text \<open>Three events that overlap one another: whatever their order, the sort puts them
  in some order x, y, z, each later one starts before the earlier ones end, and each
  opens a column of its own.\<close>

lemma three_columns_sorted:
  assumes "startDate y < endDate x" and "startDate z < endDate x" and "startDate z < endDate y"
  shows "fold placeEvent [x, y, z] [] = [[x], [y], [z]]"
  using assms by simp

lemma three_overlapping_columns:
  assumes "overlapping a b" and "overlapping a c" and "overlapping b c"
  shows "\<exists>x y z. buildColumns [a, b, c] = [[x], [y], [z]] \<and> mset [x, y, z] = mset [a, b, c]"
proof -
  have o: "startDate a < endDate b" "startDate b < endDate a" "startDate a < endDate c"
    "startDate c < endDate a" "startDate b < endDate c" "startDate c < endDate b"
    using assms by (simp_all add: overlapping_def areIntervalsOverlapping_def)
  have "sort_key startDate [a, b, c] \<in> {[a, b, c], [a, c, b], [b, a, c], [b, c, a], [c, a, b], [c, b, a]}"
    by (auto simp: insort_key.simps)
  then consider "sort_key startDate [a, b, c] = [a, b, c]" | "sort_key startDate [a, b, c] = [a, c, b]"
    | "sort_key startDate [a, b, c] = [b, a, c]" | "sort_key startDate [a, b, c] = [b, c, a]"
    | "sort_key startDate [a, b, c] = [c, a, b]" | "sort_key startDate [a, b, c] = [c, b, a]"
    by blast
  then show ?thesis
  proof cases
    case 1
    then have "buildColumns [a, b, c] = [[a], [b], [c]]"
      unfolding buildColumns_def sortEventsByStartTime_def using o by (simp only: three_columns_sorted)
    then show ?thesis by (intro exI[of _ a] exI[of _ b] exI[of _ c]) simp
  next
    case 2
    then have "buildColumns [a, b, c] = [[a], [c], [b]]"
      unfolding buildColumns_def sortEventsByStartTime_def using o by (simp only: three_columns_sorted)
    then show ?thesis by (intro exI[of _ a] exI[of _ c] exI[of _ b]) simp
  next
    case 3
    then have "buildColumns [a, b, c] = [[b], [a], [c]]"
      unfolding buildColumns_def sortEventsByStartTime_def using o by (simp only: three_columns_sorted)
    then show ?thesis by (intro exI[of _ b] exI[of _ a] exI[of _ c]) simp
  next
    case 4
    then have "buildColumns [a, b, c] = [[b], [c], [a]]"
      unfolding buildColumns_def sortEventsByStartTime_def using o by (simp only: three_columns_sorted)
    then show ?thesis by (intro exI[of _ b] exI[of _ c] exI[of _ a]) simp
  next
    case 5
    then have "buildColumns [a, b, c] = [[c], [a], [b]]"
      unfolding buildColumns_def sortEventsByStartTime_def using o by (simp only: three_columns_sorted)
    then show ?thesis by (intro exI[of _ c] exI[of _ a] exI[of _ b]) simp
  next
    case 6
    then have "buildColumns [a, b, c] = [[c], [b], [a]]"
      unfolding buildColumns_def sortEventsByStartTime_def using o by (simp only: three_columns_sorted)
    then show ?thesis by (intro exI[of _ c] exI[of _ b] exI[of _ a]) simp
  qed
qed

lemma three_overlapping_layout:
  assumes "overlapping a b" and "overlapping a c" and "overlapping b c"
  shows "length (buildColumns [a, b, c]) = 3
         \<and> length (calculateEventLayout [a, b, c]) = 3
         \<and> (\<forall>l \<in> set (calculateEventLayout [a, b, c]). width l = 100 / 3)
         \<and> mset (map left (calculateEventLayout [a, b, c])) = {# 0, 100 / 3, 200 / 3 #}
         \<and> mset (map CalendarEvent.truncate (calculateEventLayout [a, b, c])) = mset [a, b, c]"
proof -
  from three_overlapping_columns[OF assms] obtain x y z where
    c: "buildColumns [a, b, c] = [[x], [y], [z]]" and m: "mset [x, y, z] = mset [a, b, c]"
    by blast
  have l: "calculateEventLayout [a, b, c] = [layoutOf 3 0 x, layoutOf 3 1 y, layoutOf 3 2 z]"
    by (simp add: calculateEventLayout_def Let_def c enumerate_simps numeral_3_eq_3 numeral_2_eq_2)
  have t: "CalendarEvent.truncate (layoutOf n i e) = e" for n i e
    by (simp add: layoutOf_def CalendarEvent.defs EventData.defs)
  have w: "width (layoutOf 3 i e) = 100 / 3" "left (layoutOf 3 i e) = of_nat i * 100 / 3" for i e
    by (simp_all add: layoutOf_def CalendarEvent.defs EventData.defs)
  show ?thesis
    unfolding l using m by (simp add: c t w)
qed

text \<open>
  Claim C3, amended. Every \<^verbatim>\<open>LayoutEvent\<close> that \<^verbatim>\<open>calculateEventLayout\<close> produces has width
  100 / totalColumns and left offset columnIndex * 100 / totalColumns, where totalColumns
  is the final number of columns and columnIndex the column the event was placed in; both
  are percentages between 0 and 100. For three mutually overlapping events there are
  three columns and the width of each event is 100 / 3.
\<close>

theorem layout_in_percent:
  "(layoutEvent \<in> set (calculateEventLayout events) \<longrightarrow>
      width layoutEvent = 100 / of_nat (length (buildColumns events))
      \<and> (\<exists>columnIndex < length (buildColumns events).
            CalendarEvent.truncate layoutEvent \<in> set (buildColumns events ! columnIndex)
            \<and> left layoutEvent
                = (of_nat columnIndex * 100) / of_nat (length (buildColumns events)))
      \<and> 0 \<le> width layoutEvent \<and> width layoutEvent \<le> 100
      \<and> 0 \<le> left layoutEvent \<and> left layoutEvent \<le> 100)
   \<and> (overlapping a b \<and> overlapping a c \<and> overlapping b c \<longrightarrow>
        length (buildColumns [a, b, c]) = 3
        \<and> length (calculateEventLayout [a, b, c]) = 3
        \<and> (\<forall>l \<in> set (calculateEventLayout [a, b, c]). width l = 100 / 3)
        \<and> mset (map left (calculateEventLayout [a, b, c])) = {# 0, 100 / 3, 200 / 3 #}
        \<and> mset (map CalendarEvent.truncate (calculateEventLayout [a, b, c])) = mset [a, b, c])"
proof (rule conjI; rule impI)
  assume member: "layoutEvent \<in> set (calculateEventLayout events)"
  define n where "n = length (buildColumns events)"
  from member obtain i e where i: "i < n" and e: "e \<in> set (buildColumns events ! i)"
    and l: "layoutEvent = layoutOf n i e"
    unfolding n_def by (rule in_layout)
  have w: "width layoutEvent = 100 / of_nat n"
    and f: "left layoutEvent = (of_nat i * 100) / of_nat n"
    and t: "CalendarEvent.truncate layoutEvent = e"
    by (simp_all add: l layoutOf_def CalendarEvent.defs EventData.defs)
  have n1: "(1::rat) \<le> of_nat n" using i by (simp add: Suc_leI)
  have b1: "(100::rat) / of_nat n \<le> 100" using n1 by (simp add: divide_le_eq)
  have b2: "(of_nat i * 100 :: rat) / of_nat n \<le> 100"
    using i n1 by (simp add: divide_le_eq)
  have b3: "(0::rat) \<le> 100 / of_nat n" "(0::rat) \<le> (of_nat i * 100) / of_nat n"
    by simp_all
  show "width layoutEvent = 100 / of_nat (length (buildColumns events))
      \<and> (\<exists>columnIndex < length (buildColumns events).
            CalendarEvent.truncate layoutEvent \<in> set (buildColumns events ! columnIndex)
            \<and> left layoutEvent
                = (of_nat columnIndex * 100) / of_nat (length (buildColumns events)))
      \<and> 0 \<le> width layoutEvent \<and> width layoutEvent \<le> 100
      \<and> 0 \<le> left layoutEvent \<and> left layoutEvent \<le> 100"
    unfolding w f t n_def[symmetric] using i e b1 b2 b3 by auto
next
  assume "overlapping a b \<and> overlapping a c \<and> overlapping b c"
  then show "length (buildColumns [a, b, c]) = 3
        \<and> length (calculateEventLayout [a, b, c]) = 3
        \<and> (\<forall>l \<in> set (calculateEventLayout [a, b, c]). width l = 100 / 3)
        \<and> mset (map left (calculateEventLayout [a, b, c])) = {# 0, 100 / 3, 200 / 3 #}
        \<and> mset (map CalendarEvent.truncate (calculateEventLayout [a, b, c])) = mset [a, b, c]"
    by (intro three_overlapping_layout) simp_all
qed

text \<open>Witness for C3: the three overlapping events, given out of order; the build is in
  the second of three columns.\<close>

theorem layout_in_percent_witness:
  "layoutOf 3 1 build \<in> set (calculateEventLayout [demo, design, build])
   \<and> overlapping demo design \<and> overlapping demo build \<and> overlapping design build
   \<and> buildColumns [demo, design, build] = [[design], [build], [demo]]
   \<and> width (layoutOf 3 1 build) = 100 / 3
   \<and> left (layoutOf 3 1 build) = 100 / 3
   \<and> map width (calculateEventLayout [demo, design, build]) = [100 / 3, 100 / 3, 100 / 3]"
proof -
  have m: "layoutOf 3 1 build \<in> set (calculateEventLayout [demo, design, build])"
    by code_simp
  have o: "overlapping demo design \<and> overlapping demo build \<and> overlapping design build"
    by code_simp
  have c: "buildColumns [demo, design, build] = [[design], [build], [demo]]"
    by code_simp
  have w: "width (layoutOf 3 1 build) = 100 / 3" "left (layoutOf 3 1 build) = 100 / 3"
    by (simp_all add: layoutOf_def CalendarEvent.defs EventData.defs)
  have v: "map width (calculateEventLayout [demo, design, build]) = [100 / 3, 100 / 3, 100 / 3]"
    by code_simp
  show ?thesis
    using layout_in_percent[of "layoutOf 3 1 build" "[demo, design, build]" demo design build]
      m o c w v
    by blast
qed

end
